theory Spec2Isabelle
  imports Main "HOL-Library.Code_Target_Nat"
begin

section \<open>Data model of the collector (src/Main.cpp)\<close>

text \<open>
  Addresses are byte offsets into \<^verbatim>\<open>Heap::Space\<close>; a C++ pointer is a \<open>nat option\<close>,
  \<open>None\<close> being \<^verbatim>\<open>nullptr\<close>. A pointer \<^verbatim>\<open>T*\<close> to a managed payload is represented by the
  address of the enclosing \<^verbatim>\<open>GCObject<T>\<close> (its header): the two differ by the fixed
  offset that \<^verbatim>\<open>static_cast\<close> adds, so equality and membership in a semispace are the same
  for both. Sizes are those of an LP64 platform: \<^verbatim>\<open>sizeof(GCHeader) = 16\<close>.
\<close>

definition HeapSize :: nat where
  "HeapSize = 1024"

definition SemiSize :: nat where
  "SemiSize = HeapSize div 2"

definition HeaderSize :: nat where
  "HeaderSize = 16"

text \<open>
  \<^verbatim>\<open>a - b\<close> on pointers or on \<^verbatim>\<open>std::size_t\<close>, read as an unsigned 64-bit value: this is
  what every comparison of the source between a pointer difference and a \<^verbatim>\<open>size_t\<close> sees.
  For operands below \<open>2 ^ 64\<close>, which is all a 64-bit machine has, it is
  \<open>(a - b) mod 2 ^ 64\<close> (lemma \<open>diff64_mod\<close> below).
\<close>

definition diff64 :: "nat \<Rightarrow> nat \<Rightarrow> nat" where
  "diff64 a b = (if b \<le> a then a - b else 18446744073709551616 - (b - a))"

text \<open>
  \<^verbatim>\<open>GCInfo\<close>: the descriptor of a managed type. The thunks \<^verbatim>\<open>Evacuate\<close> and
  \<^verbatim>\<open>VisitPointer\<close> are determined by the type; \<open>NumPtrs\<close> is the number of \<^verbatim>\<open>GCPtr\<close>
  members that the generated \<^verbatim>\<open>VisitPointer\<close> visits, \<open>HasFinalize\<close> says whether
  \<^verbatim>\<open>Finalize\<close> is non-null.
\<close>

record GCInfo =
  Size :: nat
  NumPtrs :: nat
  HasFinalize :: bool

record GCHeader =
  Info :: "GCInfo option"
  Forwardee :: "nat option"

definition NullHeader :: GCHeader where
  "NullHeader = \<lparr>Info = None, Forwardee = None\<rparr>"

datatype error = BadAlloc | NullDeref | AssertFailed | CtorThrew | OutOfFuel

datatype Space = SpaceFrom | SpaceTo

text \<open>
  The heap. \<open>Headers\<close> gives the header read at an address, \<open>Payloads\<close> the values of the
  \<^verbatim>\<open>GCPtr\<close> members of the object whose header is at that address (member index to
  value). \<open>OnStackGCPtrs\<close> is the root array up to \<^verbatim>\<open>CurrentGCPtrSize\<close>: each entry is the
  location of a handle outside the heap and its descriptor; \<open>Handles\<close> is the \<^verbatim>\<open>Value\<close>
  stored in the handle at that location. \<open>Finalized\<close> lists, in order, the addresses
  \<^verbatim>\<open>Finalize\<close> was invoked on (the destructor of \<^verbatim>\<open>A\<close> prints them).

  A header is read and written only at addresses where the program places headers, and
  the payload of an object is kept apart from the headers: the model does not see bytes
  of a payload through a header. The capacity of the root array is not modelled. A
  failed \<^verbatim>\<open>assert\<close> is the error \<open>AssertFailed\<close>, a read through \<^verbatim>\<open>nullptr\<close> is
  \<open>NullDeref\<close>; \<open>OutOfFuel\<close> is not an error of the program but the end of the fuel that
  bounds its loops.
\<close>

record heap =
  Headers :: "nat \<Rightarrow> GCHeader"
  Payloads :: "nat \<Rightarrow> nat \<Rightarrow> nat option"
  From :: nat
  To :: nat
  AllocPtr :: nat
  OnStackGCPtrs :: "(nat \<times> GCInfo) list"
  Handles :: "nat \<Rightarrow> nat option"
  Finalized :: "nat list"

definition Heap_init :: heap where
  "Heap_init = \<lparr>Headers = (\<lambda>_. NullHeader), Payloads = (\<lambda>_ _. None),
     From = 0, To = SemiSize, AllocPtr = 0, OnStackGCPtrs = [],
     Handles = (\<lambda>_. None), Finalized = []\<rparr>"

definition write_header :: "heap \<Rightarrow> nat \<Rightarrow> GCHeader \<Rightarrow> heap" where
  "write_header s a h = s\<lparr>Headers := (Headers s)(a := h)\<rparr>"

definition InFrom :: "heap \<Rightarrow> nat \<Rightarrow> bool" where
  "InFrom s a \<longleftrightarrow> From s \<le> a \<and> a < From s + SemiSize"

definition Used :: "heap \<Rightarrow> nat" where
  "Used s = diff64 (AllocPtr s) (From s)"

section \<open>Allocation cursor\<close>

text \<open>
  \<^verbatim>\<open>Heap::AdjustAllocPtr<SpaceValue, CollectPolicyValue>\<close>. The \<^verbatim>\<open>goto AllocateBegin\<close>
  loop runs on fuel. \<open>collect\<close> is \<open>None\<close> for \<^verbatim>\<open>NeverCollect\<close> and the collector for
  \<^verbatim>\<open>CollectIfNeeded\<close>. The local \<^verbatim>\<open>spaceBase\<close> is computed at the label, so the test after
  \<^verbatim>\<open>Collect()\<close> still uses the base from before the collection. An exception leaves the
  heap as it is at the throw. The \<^verbatim>\<open>assert\<close> before the return restates the test that
  decided not to jump and is left out.
\<close>

definition spaceBase_of :: "Space \<Rightarrow> heap \<Rightarrow> nat" where
  "spaceBase_of sp s = (case sp of SpaceFrom \<Rightarrow> From s | SpaceTo \<Rightarrow> To s)"

definition no_room_at :: "nat \<Rightarrow> heap \<Rightarrow> nat \<Rightarrow> bool" where
  "no_room_at spaceBase s allocatingSize \<longleftrightarrow>
     diff64 (AllocPtr s) spaceBase > diff64 SemiSize allocatingSize"

definition no_room :: "Space \<Rightarrow> heap \<Rightarrow> nat \<Rightarrow> bool" where
  "no_room sp s allocatingSize \<longleftrightarrow> no_room_at (spaceBase_of sp s) s allocatingSize"

fun AdjustAllocPtr ::
  "nat \<Rightarrow> (heap \<Rightarrow> error + heap) option \<Rightarrow> Space \<Rightarrow> heap \<Rightarrow> nat
     \<Rightarrow> (error \<times> heap) + (heap \<times> GCHeader)" where
  "AdjustAllocPtr 0 collect sp s allocatingSize = Inl (OutOfFuel, s)"
| "AdjustAllocPtr (Suc n) collect sp s allocatingSize =
     (case (let spaceBase = spaceBase_of sp s in
            if no_room_at spaceBase s allocatingSize
            then (case collect of
                    None \<Rightarrow> Inl (BadAlloc, s)
                  | Some c \<Rightarrow>
                     (case c s of
                        Inl e \<Rightarrow> Inl (e, s)
                      | Inr s' \<Rightarrow> if no_room_at spaceBase s' allocatingSize
                                  then Inl (BadAlloc, s') else Inr s'))
            else Inr s) of
        Inl e \<Rightarrow> Inl e
      | Inr s1 \<Rightarrow>
         (let oldHeaderContent = Headers s1 (AllocPtr s1) in
          case (Info oldHeaderContent, Forwardee oldHeaderContent) of
            (None, Some nextPinnedObject) \<Rightarrow>
              if diff64 nextPinnedObject (AllocPtr s1) < allocatingSize + HeaderSize
              then (case Info (Headers s1 nextPinnedObject) of
                      None \<Rightarrow> Inl (NullDeref, s1)
                    | Some i \<Rightarrow>
                        AdjustAllocPtr n collect sp
                          (s1\<lparr>AllocPtr := nextPinnedObject + Size i\<rparr>) allocatingSize)
              else Inr (s1, oldHeaderContent)
          | _ \<Rightarrow> Inr (s1, oldHeaderContent)))"

section \<open>Evacuation\<close>

text \<open>
  \<^verbatim>\<open>Heap::Evacuate<T>\<close>, \<open>info\<close> being \<^verbatim>\<open>GCInfo::Get<T>()\<close>. \<^verbatim>\<open>Relocate\<close> copies the payload.
  The scope guard runs after \<^verbatim>\<open>AllocPtr += AllocatingSize\<close>.
\<close>

definition Evacuate :: "nat \<Rightarrow> heap \<Rightarrow> GCInfo \<Rightarrow> nat option \<Rightarrow> error + (heap \<times> nat option)" where
  "Evacuate fuel s info obj =
     (case obj of
        None \<Rightarrow> Inl NullDeref
      | Some a \<Rightarrow>
         if Forwardee (Headers s a) = Some a then Inr (s, Some a)
         else if no_room SpaceTo s (Size info) then Inl BadAlloc
         else (case AdjustAllocPtr fuel None SpaceTo s (Size info) of
                 Inl (e, _) \<Rightarrow> Inl e
               | Inr (s1, oldHeaderContent) \<Rightarrow>
                  (let resultPtr = AllocPtr s1;
                       s2 = s1\<lparr>Payloads := (Payloads s1)(resultPtr := Payloads s1 a)\<rparr>;
                       s3 = write_header s2 resultPtr \<lparr>Info = Some info, Forwardee = None\<rparr>;
                       s4 = write_header s3 a ((Headers s3 a)\<lparr>Forwardee := Some resultPtr\<rparr>);
                       s5 = s4\<lparr>AllocPtr := resultPtr + Size info\<rparr>;
                       s6 = (if diff64 (AllocPtr s5) (To s5) < diff64 SemiSize HeaderSize
                             then write_header s5 (AllocPtr s5) oldHeaderContent else s5)
                   in Inr (s6, Some resultPtr))))"

text \<open>The thunk \<^verbatim>\<open>GCInfo::Evacuate\<close> of \<^verbatim>\<open>GCInfo::Get<T>\<close>: \<open>h\<close> is the handle's location.\<close>

definition GCInfo_Evacuate :: "nat \<Rightarrow> GCInfo \<Rightarrow> nat \<Rightarrow> heap \<Rightarrow> error + heap" where
  "GCInfo_Evacuate fuel info h s =
     (case Evacuate fuel s info (Handles s h) of
        Inl e \<Rightarrow> Inl e
      | Inr (s', v) \<Rightarrow> Inr (s'\<lparr>Handles := (Handles s')(h := v)\<rparr>))"

definition set_ref :: "heap \<Rightarrow> nat \<Rightarrow> nat \<Rightarrow> nat option \<Rightarrow> heap" where
  "set_ref s ob i v = s\<lparr>Payloads := (Payloads s)(ob := (Payloads s ob)(i := v))\<rparr>"

text \<open>
  \<^verbatim>\<open>Heap::ProcessReference<T>\<close> on member \<open>i\<close> of the object at \<open>ob\<close>. The descriptor of
  \<^verbatim>\<open>T\<close> is read from the referent's header, which \<^verbatim>\<open>Allocate<T>\<close> and \<^verbatim>\<open>Evacuate<T>\<close> set
  to \<^verbatim>\<open>GCInfo::Get<T>()\<close>.
\<close>

definition ProcessReference :: "nat \<Rightarrow> heap \<Rightarrow> nat \<Rightarrow> nat \<Rightarrow> error + heap" where
  "ProcessReference fuel s ob i =
     (case Payloads s ob i of
        None \<Rightarrow> Inr s
      | Some a \<Rightarrow>
         (case Info (Headers s a) of
            None \<Rightarrow> Inl AssertFailed
          | Some info \<Rightarrow>
             if InFrom s a
             then (case Forwardee (Headers s a) of
                     Some f \<Rightarrow> Inr (set_ref s ob i (Some f))
                   | None \<Rightarrow>
                      (case Evacuate fuel s info (Some a) of
                         Inl e \<Rightarrow> Inl e
                       | Inr (s', v) \<Rightarrow> Inr (set_ref s' ob i v)))
             else Inr s))"

fun VisitPointers :: "nat \<Rightarrow> heap \<Rightarrow> nat \<Rightarrow> nat list \<Rightarrow> error + heap" where
  "VisitPointers fuel s ob [] = Inr s"
| "VisitPointers fuel s ob (i # rest) =
     (case ProcessReference fuel s ob i of
        Inl e \<Rightarrow> Inl e
      | Inr s' \<Rightarrow> VisitPointers fuel s' ob rest)"

text \<open>The thunk \<^verbatim>\<open>GCInfo::VisitPointer\<close>: every \<^verbatim>\<open>GCPtr\<close> member, in declaration order.\<close>

definition GCInfo_VisitPointer :: "nat \<Rightarrow> GCInfo \<Rightarrow> nat \<Rightarrow> heap \<Rightarrow> error + heap" where
  "GCInfo_VisitPointer fuel info ob s = VisitPointers fuel s ob [0..<NumPtrs info]"

section \<open>Collection\<close>

fun EvacuateRoots :: "nat \<Rightarrow> heap \<Rightarrow> (nat \<times> GCInfo) list \<Rightarrow> error + heap" where
  "EvacuateRoots fuel s [] = Inr s"
| "EvacuateRoots fuel s ((ptr, info) # rest) =
     (case GCInfo_Evacuate fuel info ptr s of
        Inl e \<Rightarrow> Inl e
      | Inr s' \<Rightarrow> EvacuateRoots fuel s' rest)"

text \<open>The scan loop of \<^verbatim>\<open>Collect\<close>. Following a null \<^verbatim>\<open>Forwardee\<close> dereferences null.\<close>

fun ScanLoop :: "nat \<Rightarrow> heap \<Rightarrow> nat \<Rightarrow> error + heap" where
  "ScanLoop 0 s scanPtr = Inl OutOfFuel"
| "ScanLoop (Suc n) s scanPtr =
     (if scanPtr < AllocPtr s
      then (case Info (Headers s scanPtr) of
              None \<Rightarrow>
                (case Forwardee (Headers s scanPtr) of
                   None \<Rightarrow> Inl NullDeref
                 | Some f \<Rightarrow> ScanLoop n s f)
            | Some info \<Rightarrow>
                (case GCInfo_VisitPointer n info scanPtr s of
                   Inl e \<Rightarrow> Inl e
                 | Inr s' \<Rightarrow>
                    (case Info (Headers s' scanPtr) of
                       None \<Rightarrow> Inl NullDeref
                     | Some info' \<Rightarrow> ScanLoop n s' (scanPtr + Size info'))))
      else Inr s)"

text \<open>
  The finalize phase of \<^verbatim>\<open>Collect\<close>: the walk over the old from-space, returning the heap
  and \<^verbatim>\<open>pinnedObjectRecordHeader\<close>.
\<close>

fun FinalizeLoop :: "nat \<Rightarrow> heap \<Rightarrow> nat \<Rightarrow> nat \<Rightarrow> error + (heap \<times> nat)" where
  "FinalizeLoop 0 s scanPtr pinnedObjectRecordHeader = Inl OutOfFuel"
| "FinalizeLoop (Suc n) s scanPtr pinnedObjectRecordHeader =
     (if diff64 scanPtr (From s) < diff64 SemiSize HeaderSize
      then (let header = Headers s scanPtr in
            case Info header of
              None \<Rightarrow>
                (case Forwardee header of
                   Some f \<Rightarrow> FinalizeLoop n s f pinnedObjectRecordHeader
                 | None \<Rightarrow> Inr (s, pinnedObjectRecordHeader))
            | Some info \<Rightarrow>
                if Forwardee header = None \<and> HasFinalize info
                then FinalizeLoop n (s\<lparr>Finalized := Finalized s @ [scanPtr]\<rparr>)
                       (scanPtr + Size info) pinnedObjectRecordHeader
                else if Forwardee header = Some scanPtr
                then FinalizeLoop n
                       (if pinnedObjectRecordHeader \<noteq> scanPtr
                        then write_header s pinnedObjectRecordHeader
                               \<lparr>Info = None, Forwardee = Some scanPtr\<rparr>
                        else s)
                       (scanPtr + Size info) (scanPtr + Size info)
                else FinalizeLoop n s (scanPtr + Size info) pinnedObjectRecordHeader)
      else Inr (s, pinnedObjectRecordHeader))"

definition Collect :: "nat \<Rightarrow> heap \<Rightarrow> error + heap" where
  "Collect fuel s =
     (let s0 = s\<lparr>AllocPtr := To s\<rparr>;
          scanPtr = AllocPtr s0
      in case EvacuateRoots fuel s0 (OnStackGCPtrs s0) of
           Inl e \<Rightarrow> Inl e
         | Inr s1 \<Rightarrow>
            (case ScanLoop fuel s1 scanPtr of
               Inl e \<Rightarrow> Inl e
             | Inr s2 \<Rightarrow>
                (case FinalizeLoop fuel s2 (From s2) (From s2) of
                   Inl e \<Rightarrow> Inl e
                 | Inr (s3, pinnedObjectRecordHeader) \<Rightarrow>
                    (let s4 = (if pinnedObjectRecordHeader < From s3 + SemiSize - HeaderSize
                               then write_header s3 pinnedObjectRecordHeader NullHeader
                               else s3)
                     in Inr (s4\<lparr>From := To s4, To := From s4\<rparr>)))))"

section \<open>Handles, allocation, pinning, teardown\<close>

text \<open>
  The constructors and the destructor of \<^verbatim>\<open>GCPtr\<close> for a handle at a location \<open>h\<close> outside
  the heap: registration appends to the root array, destruction decrements
  \<^verbatim>\<open>CurrentGCPtrSize\<close>. A handle inside the heap is a member of an object (\<open>Payloads\<close>) and
  is not registered.
\<close>

definition GCPtr_ctor :: "heap \<Rightarrow> nat \<Rightarrow> GCInfo \<Rightarrow> nat option \<Rightarrow> heap" where
  "GCPtr_ctor s h info v =
     s\<lparr>OnStackGCPtrs := OnStackGCPtrs s @ [(h, info)], Handles := (Handles s)(h := v)\<rparr>"

definition GCPtr_dtor :: "heap \<Rightarrow> heap" where
  "GCPtr_dtor s = s\<lparr>OnStackGCPtrs := butlast (OnStackGCPtrs s)\<rparr>"

text \<open>
  The scope guard of \<^verbatim>\<open>Heap::Allocate\<close>: it runs on both exits, after the rollback when
  the constructor threw.
\<close>

definition Allocate_guard :: "heap \<Rightarrow> GCHeader \<Rightarrow> heap" where
  "Allocate_guard s oldHeaderContent =
     (if diff64 (AllocPtr s) (From s) < diff64 SemiSize HeaderSize
      then write_header s (AllocPtr s) oldHeaderContent else s)"

text \<open>
  \<^verbatim>\<open>Heap::Allocate<T>\<close>. \<open>ctor\<close> is the outcome of the payload constructor: \<open>None\<close> when it
  throws, otherwise the initial values of the \<^verbatim>\<open>GCPtr\<close> members. \<open>h\<close> is the location of
  the returned handle. An exception carries the heap it leaves behind.
\<close>

definition Allocate ::
  "nat \<Rightarrow> heap \<Rightarrow> GCInfo \<Rightarrow> (nat \<Rightarrow> nat option) option \<Rightarrow> nat
     \<Rightarrow> (error \<times> heap) + (heap \<times> nat)" where
  "Allocate fuel s info ctor h =
     (let oldAllocPtr = AllocPtr s in
      case AdjustAllocPtr fuel (Some (Collect fuel)) SpaceFrom s (Size info) of
        Inl e \<Rightarrow> Inl e
      | Inr (s1, oldHeaderContent) \<Rightarrow>
         (let resultPtr = AllocPtr s1 in
          case ctor of
            None \<Rightarrow>
              Inl (CtorThrew, Allocate_guard (s1\<lparr>AllocPtr := oldAllocPtr\<rparr>) oldHeaderContent)
          | Some members \<Rightarrow>
              (let s2 = s1\<lparr>Payloads := (Payloads s1)(resultPtr := members)\<rparr>;
                   s3 = write_header s2 resultPtr \<lparr>Info = Some info, Forwardee = None\<rparr>;
                   s4 = s3\<lparr>AllocPtr := resultPtr + Size info\<rparr>;
                   s5 = Allocate_guard s4 oldHeaderContent
               in Inr (GCPtr_ctor s5 h info (Some resultPtr), resultPtr))))"

definition Pin :: "heap \<Rightarrow> nat option \<Rightarrow> error + heap" where
  "Pin s ptr =
     (case ptr of
        None \<Rightarrow> Inl NullDeref
      | Some a \<Rightarrow>
         if Forwardee (Headers s a) \<noteq> None then Inl AssertFailed
         else Inr (write_header s a ((Headers s a)\<lparr>Forwardee := Some a\<rparr>)))"

definition Unpin :: "heap \<Rightarrow> nat option \<Rightarrow> error + heap" where
  "Unpin s ptr =
     (case ptr of
        None \<Rightarrow> Inl NullDeref
      | Some a \<Rightarrow>
         if Forwardee (Headers s a) \<noteq> Some a then Inl AssertFailed
         else Inr (write_header s a ((Headers s a)\<lparr>Forwardee := None\<rparr>)))"

text \<open>The inner loop of \<^verbatim>\<open>Heap::FinalizeAll\<close> over the space at \<open>base\<close>.\<close>

fun FinalizeAllLoop :: "nat \<Rightarrow> heap \<Rightarrow> nat \<Rightarrow> nat \<Rightarrow> error + heap" where
  "FinalizeAllLoop 0 s base scanPtr = Inl OutOfFuel"
| "FinalizeAllLoop (Suc n) s base scanPtr =
     (if diff64 scanPtr base < diff64 SemiSize HeaderSize
      then (let header = Headers s scanPtr in
            case Info header of
              None \<Rightarrow>
                (case Forwardee header of
                   Some f \<Rightarrow> FinalizeAllLoop n s base f
                 | None \<Rightarrow> Inr s)
            | Some info \<Rightarrow>
                FinalizeAllLoop n
                  (if Forwardee header = None \<and> HasFinalize info
                   then s\<lparr>Finalized := Finalized s @ [scanPtr]\<rparr> else s)
                  base (scanPtr + Size info))
      else Inr s)"

definition FinalizeAll :: "nat \<Rightarrow> heap \<Rightarrow> error + heap" where
  "FinalizeAll fuel s =
     (if OnStackGCPtrs s \<noteq> [] then Inl AssertFailed
      else case FinalizeAllLoop fuel s 0 0 of
             Inl e \<Rightarrow> Inl e
           | Inr s' \<Rightarrow> FinalizeAllLoop fuel s' SemiSize SemiSize)"

text \<open>The payload type \<^verbatim>\<open>A\<close> of the source: one \<^verbatim>\<open>GCPtr<A>\<close> member and a destructor.\<close>

definition A_info :: GCInfo where
  "A_info = \<lparr>Size = 32, NumPtrs = 1, HasFinalize = True\<rparr>"

definition A_ctor :: "(nat \<Rightarrow> nat option) option" where
  "A_ctor = Some (\<lambda>_. None)"

section \<open>Client programs\<close>

text \<open>
  A client of the heap is a sequence of operations on handles at stack locations, as
  \<^verbatim>\<open>main\<close> is. \<open>OpNew\<close> declares a handle holding \<^verbatim>\<open>nullptr\<close>, \<open>OpDrop\<close> ends the lifetime of
  the most recent handle, \<open>OpCopy h info g\<close> copy-constructs the handle \<open>h\<close> from \<open>g\<close>,
  \<open>OpAssign h i g\<close> is \<^verbatim>\<open>h->member_i = g\<close> without the transient pin
  of \<^verbatim>\<open>operator->\<close>, \<open>OpTeardown\<close> is the destructor of the heap.
\<close>

datatype op =
    OpAllocate GCInfo "(nat \<Rightarrow> nat option) option" nat
  | OpCollect
  | OpPin nat
  | OpUnpin nat
  | OpNew nat GCInfo
  | OpCopy nat GCInfo nat
  | OpDrop
  | OpAssign nat nat nat
  | OpTeardown

definition with_heap :: "heap \<Rightarrow> error + heap \<Rightarrow> (error \<times> heap) + heap" where
  "with_heap s r = (case r of Inl e \<Rightarrow> Inl (e, s) | Inr s' \<Rightarrow> Inr s')"

fun exec_op :: "nat \<Rightarrow> op \<Rightarrow> heap \<Rightarrow> (error \<times> heap) + heap" where
  "exec_op fuel (OpAllocate info ctor h) s =
     (case Allocate fuel s info ctor h of Inl e \<Rightarrow> Inl e | Inr (s', _) \<Rightarrow> Inr s')"
| "exec_op fuel OpCollect s = with_heap s (Collect fuel s)"
| "exec_op fuel (OpPin h) s = with_heap s (Pin s (Handles s h))"
| "exec_op fuel (OpUnpin h) s = with_heap s (Unpin s (Handles s h))"
| "exec_op fuel (OpNew h info) s = Inr (GCPtr_ctor s h info None)"
| "exec_op fuel (OpCopy h info g) s = Inr (GCPtr_ctor s h info (Handles s g))"
| "exec_op fuel OpDrop s = Inr (GCPtr_dtor s)"
| "exec_op fuel (OpAssign h i g) s =
     (case Handles s h of
        None \<Rightarrow> Inl (NullDeref, s)
      | Some ob \<Rightarrow> Inr (set_ref s ob i (Handles s g)))"
| "exec_op fuel OpTeardown s = with_heap s (FinalizeAll fuel s)"

text \<open>An exception that nothing catches ends the program.\<close>

fun run :: "nat \<Rightarrow> op list \<Rightarrow> heap \<Rightarrow> (error \<times> heap) + heap" where
  "run fuel [] s = Inr s"
| "run fuel (x # xs) s =
     (case exec_op fuel x s of Inl e \<Rightarrow> Inl e | Inr s' \<Rightarrow> run fuel xs s')"

definition outcome :: "(error \<times> heap) + heap \<Rightarrow> error option" where
  "outcome r = (case r of Inl (e, _) \<Rightarrow> Some e | Inr _ \<Rightarrow> None)"

definition final :: "(error \<times> heap) + heap \<Rightarrow> heap" where
  "final r = (case r of Inl (_, s) \<Rightarrow> s | Inr s \<Rightarrow> s)"

definition is_pinned :: "heap \<Rightarrow> nat \<Rightarrow> bool" where
  "is_pinned s a \<longleftrightarrow> Info (Headers s a) \<noteq> None \<and> Forwardee (Headers s a) = Some a"

definition new_A :: "nat \<Rightarrow> op" where
  "new_A h = OpAllocate A_info A_ctor h"

definition handle_values :: "(error \<times> heap) + heap \<Rightarrow> nat list \<Rightarrow> nat option list" where
  "handle_values r hs = map (Handles (final r)) hs"

text \<open>Two handles outside the heap that refer to one object.\<close>

definition two_roots :: "op list" where
  "two_roots = [new_A 0, OpCopy 1 A_info 0]"

text \<open>An object, then two adjacent objects that are pinned, and a collection.\<close>

definition adjacent_pins :: "op list" where
  "adjacent_pins = [new_A 0, new_A 1, new_A 2, OpPin 1, OpPin 2, OpCollect]"

text \<open>
  A pinned object at the base of the space, two temporaries after it, a collection, one
  more allocation and a second collection.
\<close>

definition pin_at_base :: "op list" where
  "pin_at_base = [new_A 0, OpPin 0, new_A 1, OpDrop, new_A 2, OpDrop, OpCollect]"

definition pin_at_base_again :: "op list" where
  "pin_at_base_again = pin_at_base @ [new_A 3, OpCollect]"

text \<open>Two objects, the first referring to the second through its member.\<close>

definition linked :: "op list" where
  "linked = [new_A 0, new_A 1, OpAssign 0 0 1]"

text \<open>The first step of \<^verbatim>\<open>Collect\<close>: the cursor is set to the base of the to-space.\<close>

definition at_flip :: "heap \<Rightarrow> heap" where
  "at_flip s = s\<lparr>AllocPtr := To s\<rparr>"

text \<open>The start of a collection up to the first root: the thunk has run on handle 0 only.\<close>

definition after_first_root :: "nat \<Rightarrow> heap \<Rightarrow> (error \<times> heap) + heap" where
  "after_first_root fuel s = with_heap s (GCInfo_Evacuate fuel A_info 0 (at_flip s))"

text \<open>
  An object, two temporaries and a pinned object; two collections, which leave the pinned
  object as an island in the from-space; one more object before the island.
\<close>

definition island :: "op list" where
  "island = [new_A 0, new_A 1, OpDrop, new_A 1, OpDrop, new_A 1, OpPin 1, OpCollect, OpCollect,
     new_A 2]"

text \<open>Sixteen objects fill the from-space; only the first handle stays alive.\<close>

definition full_space :: "op list" where
  "full_space = map new_A [0..<16]"

definition full_one_live :: "op list" where
  "full_one_live = full_space @ replicate 15 OpDrop"

text \<open>
  \<^verbatim>\<open>main\<close> up to each of its four collections. Before the first: an object that refers to
  a second one, a temporary, and a cycle of two objects that no handle refers to. Then
  the object \<^verbatim>\<open>pin\<close> is allocated and pinned, after the second collection \<^verbatim>\<open>foo\<close> is
  allocated, and after the third \<^verbatim>\<open>pin\<close> is unpinned.
\<close>

definition main_first :: "op list" where
  "main_first = [new_A 0, new_A 1, OpAssign 0 0 1, OpDrop, new_A 1, OpDrop,
     new_A 1, new_A 2, OpAssign 1 0 2, OpAssign 2 0 1, OpDrop, OpDrop]"

definition main_second :: "op list" where
  "main_second = main_first @ [OpCollect, new_A 1, OpPin 1]"

definition main_third :: "op list" where
  "main_third = main_second @ [OpCollect, new_A 2]"

definition main_fourth :: "op list" where
  "main_fourth = main_third @ [OpCollect, OpUnpin 1]"

text \<open>The heap of \<^verbatim>\<open>main\<close> before its first collection, and one more object that is pinned.\<close>

definition like_main :: "op list" where
  "like_main = main_first @ [new_A 1, OpPin 1]"

text \<open>A pinned object that refers to an object no handle refers to.\<close>

definition pinned_referrer :: "op list" where
  "pinned_referrer = [new_A 0, new_A 1, OpAssign 0 0 1, OpDrop, OpPin 0]"

section \<open>Invariants and auxiliary notions\<close>

definition spaces_ok :: "heap \<Rightarrow> bool" where
  "spaces_ok s \<longleftrightarrow> (From s = 0 \<and> To s = SemiSize) \<or> (From s = SemiSize \<and> To s = 0)"

definition sz_ok :: "GCInfo \<Rightarrow> bool" where
  "sz_ok i \<longleftrightarrow> HeaderSize \<le> Size i \<and> Size i \<le> SemiSize"

definition Evacuate_copy :: "heap \<Rightarrow> GCInfo \<Rightarrow> nat \<Rightarrow> heap" where
  "Evacuate_copy s1 info a =
     (let resultPtr = AllocPtr s1;
          s2 = s1\<lparr>Payloads := (Payloads s1)(resultPtr := Payloads s1 a)\<rparr>;
          s3 = write_header s2 resultPtr \<lparr>Info = Some info, Forwardee = None\<rparr>;
          s4 = write_header s3 a ((Headers s3 a)\<lparr>Forwardee := Some resultPtr\<rparr>);
          s5 = s4\<lparr>AllocPtr := resultPtr + Size info\<rparr>;
          s6 = (if diff64 (AllocPtr s5) (To s5) < diff64 SemiSize HeaderSize
                then write_header s5 (AllocPtr s5) (Headers s1 (AllocPtr s1)) else s5)
      in s6)"

text \<open>The descriptors a collection can meet: those of the headers and of the roots.\<close>

definition known :: "heap \<Rightarrow> GCInfo \<Rightarrow> bool" where
  "known s info \<longleftrightarrow> (\<exists>a. Info (Headers s a) = Some info) \<or> info \<in> snd ` set (OnStackGCPtrs s)"

definition heap_ok :: "heap \<Rightarrow> bool" where
  "heap_ok s \<longleftrightarrow> spaces_ok s \<and> (\<forall>info. known s info \<longrightarrow> sz_ok info)"

definition to_cursor :: "heap \<Rightarrow> bool" where
  "to_cursor s \<longleftrightarrow> To s \<le> AllocPtr s \<and> AllocPtr s \<le> To s + SemiSize"

text \<open>The loop invariant of the finalize walk on \<^verbatim>\<open>pinnedObjectRecordHeader\<close>.\<close>

definition record_slot_ok :: "heap \<Rightarrow> nat \<Rightarrow> nat \<Rightarrow> bool" where
  "record_slot_ok s scanPtr r \<longleftrightarrow>
     From s \<le> r \<and> (r = scanPtr \<or> (r < From s + 496 \<and> Forwardee (Headers s r) \<noteq> Some r))"

definition fin_eff :: "heap \<Rightarrow> heap \<Rightarrow> nat \<Rightarrow> bool" where
  "fin_eff s s' r' \<longleftrightarrow>
     From s' = From s \<and> To s' = To s \<and> AllocPtr s' = AllocPtr s \<and> Payloads s' = Payloads s \<and>
     Handles s' = Handles s \<and> OnStackGCPtrs s' = OnStackGCPtrs s \<and>
     From s \<le> r' \<and> (r' < From s + 496 \<longrightarrow> Forwardee (Headers s' r') \<noteq> Some r') \<and>
     (\<forall>x. \<not> (From s \<le> x \<and> x < From s + 496) \<longrightarrow> Headers s' x = Headers s x) \<and>
     (\<forall>x. Forwardee (Headers s x) = Some x \<longrightarrow> Headers s' x = Headers s x) \<and>
     (\<forall>x i. Info (Headers s' x) = Some i \<longrightarrow> Info (Headers s x) = Some i)"

definition cursor_ok :: "heap \<Rightarrow> bool" where
  "cursor_ok s \<longleftrightarrow> From s \<le> AllocPtr s \<and> AllocPtr s \<le> From s + SemiSize"

definition inv :: "heap \<Rightarrow> bool" where
  "inv s \<longleftrightarrow> heap_ok s \<and> cursor_ok s"

fun op_ok :: "op \<Rightarrow> bool" where
  "op_ok (OpAllocate info ctor h) = sz_ok info"
| "op_ok (OpNew h info) = sz_ok info"
| "op_ok (OpCopy h info g) = sz_ok info"
| "op_ok OpCollect = True"
| "op_ok (OpPin h) = True"
| "op_ok (OpUnpin h) = True"
| "op_ok OpDrop = True"
| "op_ok (OpAssign h i g) = True"
| "op_ok OpTeardown = True"

text \<open>
  An allocation finds room without collecting when \<^verbatim>\<open>AdjustAllocPtr\<close> returns under the
  policy \<^verbatim>\<open>NeverCollect\<close>; a program is \<open>quiet\<close> when each of its allocations does.
\<close>

definition finds_room :: "nat \<Rightarrow> heap \<Rightarrow> nat \<Rightarrow> bool" where
  "finds_room fuel s sz =
     (case AdjustAllocPtr fuel None SpaceFrom s sz of Inl _ \<Rightarrow> False | Inr _ \<Rightarrow> True)"

fun quiet :: "nat \<Rightarrow> op list \<Rightarrow> heap \<Rightarrow> bool" where
  "quiet fuel [] s = True"
| "quiet fuel (x # xs) s =
     ((case x of OpAllocate info ctor h \<Rightarrow> finds_room fuel s (Size info) | _ \<Rightarrow> True) \<and>
      (case exec_op fuel x s of Inl _ \<Rightarrow> True | Inr s' \<Rightarrow> quiet fuel xs s'))"

text \<open>Objects laid out back to back from an address, by their descriptors.\<close>

fun laid_out :: "heap \<Rightarrow> nat \<Rightarrow> GCInfo list \<Rightarrow> bool" where
  "laid_out s a [] = True"
| "laid_out s a (i # rest) = (Info (Headers s a) = Some i \<and> laid_out s (a + Size i) rest)"

text \<open>
  The quantity of claim C7, in the words of the specification: the sum of \<^verbatim>\<open>Info->Size\<close> over
  the objects of the from-space that are reachable from the roots or pinned. The objects
  of the from-space are found as the finalize walk finds them; reachability follows the
  \<^verbatim>\<open>GCPtr\<close> members from the values of the registered handles.
\<close>

fun from_space_objects :: "nat \<Rightarrow> heap \<Rightarrow> nat \<Rightarrow> nat list" where
  "from_space_objects 0 s a = []"
| "from_space_objects (Suc n) s a =
     (if InFrom s a
      then (case Info (Headers s a) of
              None \<Rightarrow> (case Forwardee (Headers s a) of
                         None \<Rightarrow> []
                       | Some f \<Rightarrow> from_space_objects n s f)
            | Some i \<Rightarrow> a # from_space_objects n s (a + Size i))
      else [])"

definition members_of :: "heap \<Rightarrow> nat \<Rightarrow> nat list" where
  "members_of s a =
     (case Info (Headers s a) of
        None \<Rightarrow> []
      | Some i \<Rightarrow> concat (map (\<lambda>k. case Payloads s a k of None \<Rightarrow> [] | Some b \<Rightarrow> [b])
                            [0..<NumPtrs i]))"

fun reachable :: "nat \<Rightarrow> heap \<Rightarrow> nat list \<Rightarrow> nat list \<Rightarrow> nat list" where
  "reachable 0 s work seen = seen"
| "reachable (Suc n) s work seen =
     (case work of
        [] \<Rightarrow> seen
      | a # rest \<Rightarrow>
          if a \<in> set seen then reachable n s rest seen
          else reachable n s (members_of s a @ rest) (a # seen))"

definition root_values :: "heap \<Rightarrow> nat list" where
  "root_values s =
     concat (map (\<lambda>(h, info). case Handles s h of None \<Rightarrow> [] | Some b \<Rightarrow> [b]) (OnStackGCPtrs s))"

definition size_at :: "heap \<Rightarrow> nat \<Rightarrow> nat" where
  "size_at s a = (case Info (Headers s a) of None \<Rightarrow> 0 | Some i \<Rightarrow> Size i)"

definition reachable_and_pinned_bytes :: "nat \<Rightarrow> heap \<Rightarrow> nat" where
  "reachable_and_pinned_bytes fuel s =
     sum_list (map (size_at s)
       (filter (\<lambda>a. a \<in> set (reachable fuel s (root_values s) []) \<or> is_pinned s a)
          (from_space_objects fuel s (From s))))"

section \<open>Reachability and the copies a collection makes\<close>

text \<open>
  The objects reachable from the registered handles through the \<^verbatim>\<open>GCPtr\<close> members that
  \<^verbatim>\<open>VisitPointer\<close> visits.
\<close>

inductive_set reach :: "heap \<Rightarrow> nat set" for s :: heap where
  root: "(h, info) \<in> set (OnStackGCPtrs s) \<Longrightarrow> Handles s h = Some a \<Longrightarrow> a \<in> reach s"
| member: "a \<in> reach s \<Longrightarrow> Info (Headers s a) = Some i \<Longrightarrow> k < NumPtrs i \<Longrightarrow>
           Payloads s a k = Some b \<Longrightarrow> b \<in> reach s"

definition num_ptrs_at :: "heap \<Rightarrow> nat \<Rightarrow> nat" where
  "num_ptrs_at s a = (case Info (Headers s a) of None \<Rightarrow> 0 | Some i \<Rightarrow> NumPtrs i)"

text \<open>
  Objects copied in the order \<open>L\<close> back to back from \<open>base\<close>: \<open>copy_of s base L b\<close> is the
  address of the copy of \<open>b\<close>, and \<open>b\<close> itself for an object that is not in \<open>L\<close>. The sizes
  are those of the headers of \<open>s\<close>, the heap before the collection.
\<close>

fun copy_of :: "heap \<Rightarrow> nat \<Rightarrow> nat list \<Rightarrow> nat \<Rightarrow> nat" where
  "copy_of s base [] b = b"
| "copy_of s base (a # L) b = (if b = a then base else copy_of s (base + size_at s a) L b)"

text \<open>
  The heaps of claims C1 and C7. \<open>objs\<close> are addresses of objects of the from-space, among
  them every object that a registered handle refers to. An object has a descriptor
  larger than a header and at most a semispace, a \<^verbatim>\<open>Forwardee\<close> that is null or the object
  itself (pinned), and members that are null or refer to objects of \<open>objs\<close>; a pinned
  object refers to pinned objects only. A registered handle is not null and refers to an
  object of its type; the handles are at distinct locations and no two of them refer to
  the same unpinned object. The null header is at the base of the to-space: no object
  pinned in an earlier cycle is left there.
\<close>

definition object_ok :: "heap \<Rightarrow> nat list \<Rightarrow> nat \<Rightarrow> bool" where
  "object_ok s objs a \<longleftrightarrow>
     InFrom s a \<and>
     (Forwardee (Headers s a) = None \<or> Forwardee (Headers s a) = Some a) \<and>
     (case Info (Headers s a) of
        None \<Rightarrow> False
      | Some i \<Rightarrow>
          HeaderSize < Size i \<and> Size i \<le> SemiSize \<and>
          list_all (\<lambda>k. case Payloads s a k of
                          None \<Rightarrow> True
                        | Some b \<Rightarrow> b \<in> set objs \<and>
                            (Forwardee (Headers s a) = Some a \<longrightarrow>
                               Forwardee (Headers s b) = Some b))
                   [0..<NumPtrs i])"

definition root_ok :: "heap \<Rightarrow> nat list \<Rightarrow> nat \<times> GCInfo \<Rightarrow> bool" where
  "root_ok s objs r =
     (case Handles s (fst r) of
        None \<Rightarrow> False
      | Some a \<Rightarrow> a \<in> set objs \<and> Info (Headers s a) = Some (snd r))"

definition collectable :: "heap \<Rightarrow> nat list \<Rightarrow> bool" where
  "collectable s objs \<longleftrightarrow>
     spaces_ok s \<and> Headers s (To s) = NullHeader \<and>
     list_all (object_ok s objs) objs \<and>
     list_all (root_ok s objs) (OnStackGCPtrs s) \<and>
     distinct (map fst (OnStackGCPtrs s)) \<and>
     distinct (filter (\<lambda>a. \<not> is_pinned s a) (root_values s))"

text \<open>
  The state \<open>t\<close> of a collection that started in \<open>s\<close>, has copied the objects \<open>L\<close>, in this
  order, and has redirected the members \<open>D\<close> (pairs of an object and a member index) of
  the copies.
\<close>

definition copying :: "heap \<Rightarrow> nat list \<Rightarrow> heap \<Rightarrow> nat list \<Rightarrow> (nat \<times> nat) set \<Rightarrow> bool" where
  "copying s objs t L D \<longleftrightarrow>
     From t = From s \<and> To t = To s \<and> OnStackGCPtrs t = OnStackGCPtrs s \<and>
     distinct L \<and> set L \<subseteq> set objs \<and> set L \<subseteq> reach s \<and>
     (\<forall>a\<in>set L. Forwardee (Headers s a) = None) \<and>
     AllocPtr t = To s + sum_list (map (size_at s) L) \<and> AllocPtr t \<le> To s + SemiSize \<and>
     (Headers t (AllocPtr t) = NullHeader \<or> To s + 496 \<le> AllocPtr t) \<and>
     (\<forall>x. InFrom s x \<longrightarrow>
        Headers t x = (if x \<in> set L
                       then (Headers s x)\<lparr>Forwardee := Some (copy_of s (To s) L x)\<rparr>
                       else Headers s x)) \<and>
     (\<forall>x. InFrom s x \<longrightarrow> Payloads t x = Payloads s x) \<and>
     (\<forall>a\<in>set L. Headers t (copy_of s (To s) L a) = \<lparr>Info = Info (Headers s a), Forwardee = None\<rparr>) \<and>
     (\<forall>a\<in>set L. \<forall>k. Payloads t (copy_of s (To s) L a) k =
        (if (a, k) \<in> D then map_option (copy_of s (To s) L) (Payloads s a k)
         else Payloads s a k)) \<and>
     (\<forall>(a, k)\<in>D. a \<in> set L \<and>
        (\<forall>b. Payloads s a k = Some b \<longrightarrow> b \<in> set L \<or> Forwardee (Headers s b) = Some b))"

text \<open>The members that the scan loop has redirected when it has passed the copies of \<open>L\<close>.\<close>

definition scanned :: "heap \<Rightarrow> nat list \<Rightarrow> (nat \<times> nat) set" where
  "scanned s L = {(a, k). a \<in> set L \<and> k < num_ptrs_at s a}"

text \<open>The objects that the handles \<open>rs\<close> refer to.\<close>

definition referents :: "heap \<Rightarrow> (nat \<times> GCInfo) list \<Rightarrow> nat list" where
  "referents s rs =
     concat (map (\<lambda>(h, info). case Handles s h of None \<Rightarrow> [] | Some b \<Rightarrow> [b]) rs)"

text \<open>
  A from-space that holds its objects back to back from the base, as the allocations and
  a collection without pinned objects leave it: \<open>objs\<close> are the addresses of the objects
  with the descriptors \<open>infos\<close>, the cursor is behind the last one, and the null header
  is at the cursor unless less than a header fits there.
\<close>

fun addrs :: "nat \<Rightarrow> GCInfo list \<Rightarrow> nat list" where
  "addrs a [] = []"
| "addrs a (i # rest) = a # addrs (a + Size i) rest"

definition contiguous :: "heap \<Rightarrow> nat list \<Rightarrow> GCInfo list \<Rightarrow> bool" where
  "contiguous s objs infos \<longleftrightarrow>
     objs = addrs (From s) infos \<and> laid_out s (From s) infos \<and>
     AllocPtr s = From s + sum_list (map Size infos) \<and> AllocPtr s \<le> From s + SemiSize \<and>
     (Headers s (AllocPtr s) = NullHeader \<or> From s + 496 \<le> AllocPtr s)"

lemma diff64_mod:
  "a < 2 ^ 64 \<Longrightarrow> b < 2 ^ 64 \<Longrightarrow> int (diff64 a b) = (int a - int b) mod 2 ^ 64"
proof (cases "b \<le> a")
  case True
  assume "a < 2 ^ 64" "b < 2 ^ 64"
  with True show ?thesis by (simp add: diff64_def of_nat_diff)
next
  case False
  assume a: "a < 2 ^ 64" and b: "b < 2 ^ 64"
  have "(int a - int b) mod 2 ^ 64 = (int a - int b + 2 ^ 64) mod 2 ^ 64" by simp
  also have "\<dots> = int a - int b + 2 ^ 64"
    using False a b by (intro mod_pos_pos_trivial) auto
  finally show ?thesis using False a b by (simp add: diff64_def of_nat_diff)
qed

lemma diff64_le_iff:
  "b + k < 18446744073709551616 \<Longrightarrow> diff64 a b \<le> k \<longleftrightarrow> b \<le> a \<and> a \<le> b + k"
  by (auto simp: diff64_def)

lemma diff64_less_iff:
  "b + k \<le> 18446744073709551616 \<Longrightarrow> 0 < k \<Longrightarrow> diff64 a b < k \<longleftrightarrow> b \<le> a \<and> a < b + k"
  by (auto simp: diff64_def)

lemma AdjustAllocPtr_Suc_None:
  "AdjustAllocPtr (Suc n) None sp s sz =
     (if no_room sp s sz then Inl (BadAlloc, s)
      else case (Info (Headers s (AllocPtr s)), Forwardee (Headers s (AllocPtr s))) of
             (None, Some nextPinnedObject) \<Rightarrow>
               if diff64 nextPinnedObject (AllocPtr s) < sz + HeaderSize
               then (case Info (Headers s nextPinnedObject) of
                       None \<Rightarrow> Inl (NullDeref, s)
                     | Some i \<Rightarrow> AdjustAllocPtr n None sp (s\<lparr>AllocPtr := nextPinnedObject + Size i\<rparr>) sz)
               else Inr (s, Headers s (AllocPtr s))
           | _ \<Rightarrow> Inr (s, Headers s (AllocPtr s)))"
  by (simp add: no_room_def Let_def)

declare AdjustAllocPtr.simps(2) [simp del]

lemma AdjustAllocPtr_None:
  "AdjustAllocPtr n None sp s sz = Inr (s1, old) \<Longrightarrow>
     (\<exists>p. s1 = s\<lparr>AllocPtr := p\<rparr>) \<and> \<not> no_room sp s1 sz \<and> old = Headers s1 (AllocPtr s1)"
proof (induction n arbitrary: s)
  case 0
  then show ?case by simp
next
  case (Suc n)
  note run = Suc.prems[unfolded AdjustAllocPtr_Suc_None]
  show ?case
  proof (cases "no_room sp s sz")
    case True
    with run show ?thesis by simp
  next
    case False
    note nr = this
    show ?thesis
    proof (cases "\<exists>np. Info (Headers s (AllocPtr s)) = None \<and> Forwardee (Headers s (AllocPtr s)) = Some np
               \<and> diff64 np (AllocPtr s) < sz + HeaderSize")
      case True
      then obtain np where np: "Info (Headers s (AllocPtr s)) = None"
        "Forwardee (Headers s (AllocPtr s)) = Some np" "diff64 np (AllocPtr s) < sz + HeaderSize"
        by blast
      from run nr np obtain i :: GCInfo where i: "Info (Headers s np) = Some i"
        and rec: "AdjustAllocPtr n None sp (s\<lparr>AllocPtr := np + Size i\<rparr>) sz = Inr (s1, old)"
        by (auto split: option.splits)
      from Suc.IH[OF rec] show ?thesis
        by (auto simp: no_room_def no_room_at_def spaceBase_of_def split: Space.splits)
    next
      case False
      with run nr have "s1 = s" "old = Headers s (AllocPtr s)"
        by (auto split: option.splits if_splits)
      with nr show ?thesis by (auto intro: exI[of _ "AllocPtr s"])
    qed
  qed
qed

lemma AdjustAllocPtr_Null:
  "AdjustAllocPtr n c sp s sz = Inr (s1, old) \<Longrightarrow> c = None \<Longrightarrow>
   Headers s (AllocPtr s) = NullHeader \<Longrightarrow> AllocPtr s1 = AllocPtr s"
  by (cases n) (auto simp: NullHeader_def AdjustAllocPtr_Suc_None split: if_splits)

lemma Evacuate_Some:
  assumes "Evacuate fuel s info (Some a) = Inr (s', v)"
  shows "(Forwardee (Headers s a) = Some a \<and> s' = s \<and> v = Some a) \<or>
         (Forwardee (Headers s a) \<noteq> Some a \<and>
          (\<exists>p. \<not> no_room SpaceTo (s\<lparr>AllocPtr := p\<rparr>) (Size info) \<and> v = Some p \<and>
               (Headers s (AllocPtr s) = NullHeader \<longrightarrow> p = AllocPtr s) \<and>
               s' = Evacuate_copy (s\<lparr>AllocPtr := p\<rparr>) info a))"
proof (cases "Forwardee (Headers s a) = Some a")
  case True
  with assms show ?thesis by (simp add: Evacuate_def)
next
  case False
  with assms obtain s1 old where adj: "AdjustAllocPtr fuel None SpaceTo s (Size info) = Inr (s1, old)"
    and res: "v = Some (AllocPtr s1)" "s' = Evacuate_copy s1 info a"
    by (auto simp: Evacuate_def Evacuate_copy_def Let_def split: if_splits sum.splits prod.splits)
      (metis AdjustAllocPtr_None)+
  from AdjustAllocPtr_None[OF adj] obtain p where p: "s1 = s\<lparr>AllocPtr := p\<rparr>"
    and nr: "\<not> no_room SpaceTo s1 (Size info)" by blast
  have "p = AllocPtr s" if "Headers s (AllocPtr s) = NullHeader"
    using AdjustAllocPtr_Null[OF adj refl that] p by simp
  with False p nr res show ?thesis by auto
qed

text \<open>The test of \<^verbatim>\<open>Evacuate\<close> before \<^verbatim>\<open>AdjustAllocPtr\<close>: a copy is made only if there is room at the cursor.\<close>

lemma Evacuate_room:
  "Evacuate fuel s info (Some a) = Inr (s', v) \<Longrightarrow> Forwardee (Headers s a) \<noteq> Some a \<Longrightarrow>
   \<not> no_room SpaceTo s (Size info)"
  by (auto simp: Evacuate_def split: if_splits)

lemma Evacuate_copy_frame [simp]:
  "From (Evacuate_copy s1 info a) = From s1"
  "To (Evacuate_copy s1 info a) = To s1"
  "OnStackGCPtrs (Evacuate_copy s1 info a) = OnStackGCPtrs s1"
  "Handles (Evacuate_copy s1 info a) = Handles s1"
  "Finalized (Evacuate_copy s1 info a) = Finalized s1"
  "AllocPtr (Evacuate_copy s1 info a) = AllocPtr s1 + Size info"
  by (simp_all add: Evacuate_copy_def Let_def write_header_def)

lemma Evacuate_copy_Info:
  "Info (Headers (Evacuate_copy s1 info a) x) = Some i \<Longrightarrow>
   i = info \<or> Info (Headers s1 x) = Some i \<or> Info (Headers s1 (AllocPtr s1)) = Some i"
  by (auto simp: Evacuate_copy_def Let_def write_header_def split: if_splits)

lemma Evacuate_frame:
  assumes "Evacuate fuel s info obj = Inr (s', v)"
  shows
  "From s' = From s \<and> To s' = To s \<and> OnStackGCPtrs s' = OnStackGCPtrs s \<and>
   Handles s' = Handles s \<and> Finalized s' = Finalized s"
proof (cases obj)
  case None
  with assms show ?thesis by (simp add: Evacuate_def)
next
  case (Some a)
  from Evacuate_Some[OF assms[unfolded Some]] show ?thesis by auto
qed

lemma set_ref_frame [simp]:
  "From (set_ref s ob i v) = From s"
  "To (set_ref s ob i v) = To s"
  "AllocPtr (set_ref s ob i v) = AllocPtr s"
  "Headers (set_ref s ob i v) = Headers s"
  "OnStackGCPtrs (set_ref s ob i v) = OnStackGCPtrs s"
  "Handles (set_ref s ob i v) = Handles s"
  "Finalized (set_ref s ob i v) = Finalized s"
  by (simp_all add: set_ref_def)

lemma ProcessReference_preserves:
  assumes E: "\<And>n s info a s' v. P s \<Longrightarrow> known s info \<Longrightarrow>
                Evacuate n s info (Some a) = Inr (s', v) \<Longrightarrow> P s'"
    and R: "\<And>s ob i v. P s \<Longrightarrow> P (set_ref s ob i v)"
    and P: "P s" and run: "ProcessReference n s ob i = Inr s'"
  shows "P s'"
proof (cases "Payloads s ob i")
  case None
  with run P show ?thesis by (simp add: ProcessReference_def)
next
  case (Some a)
  show ?thesis
  proof (cases "Info (Headers s a)")
    case None
    with run Some show ?thesis by (simp add: ProcessReference_def)
  next
    case (Some info)
    note info = this
    have k: "known s info" using info by (auto simp: known_def)
    show ?thesis
    proof (cases "InFrom s a")
      case False
      with run \<open>Payloads s ob i = Some a\<close> info P show ?thesis
        by (simp add: ProcessReference_def)
    next
      case True
      show ?thesis
      proof (cases "Forwardee (Headers s a)")
        case (Some f)
        with run \<open>Payloads s ob i = Some a\<close> info True P R show ?thesis
          by (auto simp: ProcessReference_def)
      next
        case None
        with run \<open>Payloads s ob i = Some a\<close> info True
        obtain s1 v where ev: "Evacuate n s info (Some a) = Inr (s1, v)"
          and s': "s' = set_ref s1 ob i v"
          by (auto simp: ProcessReference_def split: sum.splits)
        from E[OF P k ev] R s' show ?thesis by simp
      qed
    qed
  qed
qed

lemma VisitPointers_preserves:
  assumes E: "\<And>n s info a s' v. P s \<Longrightarrow> known s info \<Longrightarrow>
                Evacuate n s info (Some a) = Inr (s', v) \<Longrightarrow> P s'"
    and R: "\<And>s ob i v. P s \<Longrightarrow> P (set_ref s ob i v)"
  shows "P s \<Longrightarrow> VisitPointers n s ob is = Inr s' \<Longrightarrow> P s'"
proof (induction "is" arbitrary: s)
  case Nil
  then show ?case by simp
next
  case (Cons i rest)
  from Cons.prems(2) obtain s1 where 1: "ProcessReference n s ob i = Inr s1"
    and 2: "VisitPointers n s1 ob rest = Inr s'"
    by (auto split: sum.splits)
  have "P s1"
    by (rule ProcessReference_preserves[where P=P]) (erule (2) E, erule R, rule Cons.prems(1), rule 1)
  from Cons.IH[OF this 2] show ?case .
qed

lemma ScanLoop_preserves:
  assumes E: "\<And>n s info a s' v. P s \<Longrightarrow> known s info \<Longrightarrow>
                Evacuate n s info (Some a) = Inr (s', v) \<Longrightarrow> P s'"
    and R: "\<And>s ob i v. P s \<Longrightarrow> P (set_ref s ob i v)"
  shows "P s \<Longrightarrow> ScanLoop n s scanPtr = Inr s' \<Longrightarrow> P s'"
proof (induction n arbitrary: s scanPtr)
  case 0
  then show ?case by simp
next
  case (Suc n)
  show ?case
  proof (cases "scanPtr < AllocPtr s")
    case False
    with Suc.prems show ?thesis by simp
  next
    case True
    show ?thesis
    proof (cases "Info (Headers s scanPtr)")
      case None
      with Suc.prems True obtain f where "ScanLoop n s f = Inr s'"
        by (auto split: option.splits)
      from Suc.IH[OF Suc.prems(1) this] show ?thesis .
    next
      case (Some info)
      note hd = this
      from Suc.prems(2) True hd obtain s1 where
        v: "GCInfo_VisitPointer n info scanPtr s = Inr s1"
        by (cases "GCInfo_VisitPointer n info scanPtr s") auto
      from Suc.prems(2) True hd v obtain info' :: GCInfo where
        2: "ScanLoop n s1 (scanPtr + Size info') = Inr s'"
        by (cases "Info (Headers s1 scanPtr)") auto
      from v have vp: "VisitPointers n s scanPtr [0..<NumPtrs info] = Inr s1"
        by (simp add: GCInfo_VisitPointer_def)
      have "P s1"
        by (rule VisitPointers_preserves[where P=P]) (erule (2) E, erule R, rule Suc.prems(1), rule vp)
      from Suc.IH[OF this 2] show ?thesis .
    qed
  qed
qed

lemma EvacuateRoots_preserves:
  assumes E: "\<And>n s info a s' v. P s \<Longrightarrow> known s info \<Longrightarrow>
                Evacuate n s info (Some a) = Inr (s', v) \<Longrightarrow> P s'"
    and H: "\<And>s h v. P s \<Longrightarrow> P (s\<lparr>Handles := (Handles s)(h := v)\<rparr>)"
  shows "P s \<Longrightarrow> set roots \<subseteq> set (OnStackGCPtrs s) \<Longrightarrow>
         EvacuateRoots n s roots = Inr s' \<Longrightarrow> P s'"
proof (induction roots arbitrary: s)
  case Nil
  then show ?case by simp
next
  case (Cons r rest)
  obtain h info where r: "r = (h, info)" by (cases r)
  from Cons.prems(3) r obtain s1 where 1: "GCInfo_Evacuate n info h s = Inr s1"
    and 2: "EvacuateRoots n s1 rest = Inr s'"
    by (auto split: sum.splits)
  from 1 obtain s0 v where ev: "Evacuate n s info (Handles s h) = Inr (s0, v)"
    and s1: "s1 = s0\<lparr>Handles := (Handles s0)(h := v)\<rparr>"
    by (auto simp: GCInfo_Evacuate_def split: sum.splits)
  from ev obtain a where a: "Handles s h = Some a" by (cases "Handles s h") (auto simp: Evacuate_def)
  have k: "known s info" using Cons.prems(2) r by (force simp: known_def)
  from E[OF Cons.prems(1) k ev[unfolded a]] have "P s0" .
  then have P1: "P s1" unfolding s1 by (rule H)
  from Evacuate_frame[OF ev] s1 have "OnStackGCPtrs s1 = OnStackGCPtrs s" by simp
  with Cons.prems(2) have "set rest \<subseteq> set (OnStackGCPtrs s1)" by auto
  from Cons.IH[OF P1 this 2] show ?case .
qed


lemma no_room_To:
  assumes "spaces_ok s" "sz_ok info" "\<not> no_room SpaceTo (s\<lparr>AllocPtr := p\<rparr>) (Size info)"
  shows "To s \<le> p \<and> p + Size info \<le> To s + SemiSize"
proof -
  from assms(2) have sz: "Size info \<le> 512" by (simp add: sz_ok_def SemiSize_def HeapSize_def)
  then have d: "diff64 SemiSize (Size info) = 512 - Size info"
    by (simp add: diff64_def SemiSize_def HeapSize_def)
  from assms(1) have t: "To s \<le> 512" by (auto simp: spaces_ok_def SemiSize_def HeapSize_def)
  from assms(3) have "diff64 p (To s) \<le> 512 - Size info"
    by (simp add: no_room_def no_room_at_def spaceBase_of_def d)
  with t sz have "To s \<le> p \<and> p \<le> To s + (512 - Size info)"
    by (subst (asm) diff64_le_iff) auto
  with sz show ?thesis unfolding SemiSize_def HeapSize_def by auto
qed

lemma known_Evacuate:
  assumes "Evacuate n s info (Some a) = Inr (s', v)" "known s' i"
  shows "i = info \<or> known s i"
proof -
  from Evacuate_Some[OF assms(1)] show ?thesis
  proof
    assume "Forwardee (Headers s a) = Some a \<and> s' = s \<and> v = Some a"
    with assms(2) show ?thesis by simp
  next
    assume "Forwardee (Headers s a) \<noteq> Some a \<and>
          (\<exists>p. \<not> no_room SpaceTo (s\<lparr>AllocPtr := p\<rparr>) (Size info) \<and> v = Some p \<and>
               (Headers s (AllocPtr s) = NullHeader \<longrightarrow> p = AllocPtr s) \<and>
               s' = Evacuate_copy (s\<lparr>AllocPtr := p\<rparr>) info a)"
    then obtain p where s': "s' = Evacuate_copy (s\<lparr>AllocPtr := p\<rparr>) info a" by blast
    from assms(2) show ?thesis unfolding known_def s'
      by (auto dest!: Evacuate_copy_Info)
  qed
qed

lemma heap_ok_Evacuate:
  assumes "heap_ok s" "known s info" "Evacuate n s info (Some a) = Inr (s', v)"
  shows "heap_ok s'"
  using assms Evacuate_frame[OF assms(3)] known_Evacuate[OF assms(3)]
  unfolding heap_ok_def spaces_ok_def by metis

lemma heap_ok_set_ref: "heap_ok s \<Longrightarrow> heap_ok (set_ref s ob i v)"
  by (simp add: heap_ok_def spaces_ok_def known_def)

lemma heap_ok_Handles: "heap_ok s \<Longrightarrow> heap_ok (s\<lparr>Handles := h\<rparr>)"
  by (simp add: heap_ok_def spaces_ok_def known_def)

lemma to_cursor_Evacuate:
  assumes "heap_ok s" "to_cursor s" "known s info" "Evacuate n s info (Some a) = Inr (s', v)"
  shows "to_cursor s'"
proof -
  from assms(1,3) have ok: "spaces_ok s" "sz_ok info" by (auto simp: heap_ok_def)
  from Evacuate_Some[OF assms(4)] show ?thesis
  proof
    assume "Forwardee (Headers s a) = Some a \<and> s' = s \<and> v = Some a"
    with assms(2) show ?thesis by simp
  next
    assume "Forwardee (Headers s a) \<noteq> Some a \<and>
          (\<exists>p. \<not> no_room SpaceTo (s\<lparr>AllocPtr := p\<rparr>) (Size info) \<and> v = Some p \<and>
               (Headers s (AllocPtr s) = NullHeader \<longrightarrow> p = AllocPtr s) \<and>
               s' = Evacuate_copy (s\<lparr>AllocPtr := p\<rparr>) info a)"
    then obtain p where nr: "\<not> no_room SpaceTo (s\<lparr>AllocPtr := p\<rparr>) (Size info)"
      and s': "s' = Evacuate_copy (s\<lparr>AllocPtr := p\<rparr>) info a" by blast
    from no_room_To[OF ok nr] show ?thesis by (simp add: to_cursor_def s')
  qed
qed

lemma scan_in_range:
  "spaces_ok s \<Longrightarrow> diff64 scanPtr (From s) < diff64 SemiSize HeaderSize \<longleftrightarrow>
     From s \<le> scanPtr \<and> scanPtr < From s + 496"
  by (subst diff64_less_iff) (auto simp: spaces_ok_def SemiSize_def HeapSize_def HeaderSize_def diff64_def)

lemma fin_eff_id:
  "From s \<le> r \<Longrightarrow> (r < From s + 496 \<longrightarrow> Forwardee (Headers s r) \<noteq> Some r) \<Longrightarrow> fin_eff s s r"
  by (simp add: fin_eff_def)

lemma fin_eff_Finalized:
  "fin_eff (s\<lparr>Finalized := l\<rparr>) s' r' \<Longrightarrow> fin_eff s s' r'"
  by (simp add: fin_eff_def)

lemma fin_eff_write:
  assumes r: "From s \<le> r" "r < From s + 496" "Forwardee (Headers s r) \<noteq> Some r"
    and eff: "fin_eff (write_header s r \<lparr>Info = None, Forwardee = f\<rparr>) s' r'"
  shows "fin_eff s s' r'"
proof -
  let ?w = "write_header s r \<lparr>Info = None, Forwardee = f\<rparr>"
  have w: "\<And>x. x \<noteq> r \<Longrightarrow> Headers ?w x = Headers s x"
    and wr: "Info (Headers ?w r) = None"
    and fw: "From ?w = From s" "To ?w = To s" "AllocPtr ?w = AllocPtr s" "Payloads ?w = Payloads s"
      "Handles ?w = Handles s" "OnStackGCPtrs ?w = OnStackGCPtrs s"
    by (simp_all add: write_header_def)
  from eff have frame: "From s' = From s" "To s' = To s" "AllocPtr s' = AllocPtr s"
    "Payloads s' = Payloads s" "Handles s' = Handles s" "OnStackGCPtrs s' = OnStackGCPtrs s"
    "From s \<le> r'" "r' < From s + 496 \<longrightarrow> Forwardee (Headers s' r') \<noteq> Some r'"
    unfolding fin_eff_def fw by blast+
  from eff have out: "\<And>x. \<not> (From s \<le> x \<and> x < From s + 496) \<Longrightarrow> Headers s' x = Headers ?w x"
    and pin: "\<And>x. Forwardee (Headers ?w x) = Some x \<Longrightarrow> Headers s' x = Headers ?w x"
    and inf: "\<And>x i. Info (Headers s' x) = Some i \<Longrightarrow> Info (Headers ?w x) = Some i"
    unfolding fin_eff_def fw by blast+
  have 1: "Headers s' x = Headers s x" if "\<not> (From s \<le> x \<and> x < From s + 496)" for x
  proof -
    from that r have "x \<noteq> r" by auto
    with out[OF that] w show ?thesis by simp
  qed
  have 2: "Headers s' x = Headers s x" if "Forwardee (Headers s x) = Some x" for x
  proof -
    from that r(3) have ne: "x \<noteq> r" by auto
    with that w have "Forwardee (Headers ?w x) = Some x" by simp
    from pin[OF this] w ne show ?thesis by simp
  qed
  have 3: "Info (Headers s x) = Some i" if "Info (Headers s' x) = Some i" for x i
  proof -
    from inf[OF that] wr have "x \<noteq> r" by auto
    with inf[OF that] w show ?thesis by simp
  qed
  from frame 1 2 3 show ?thesis unfolding fin_eff_def by blast
qed

lemma FinalizeLoop_out:
  "\<not> diff64 scanPtr (From s) < diff64 SemiSize HeaderSize \<Longrightarrow>
   FinalizeLoop (Suc n) s scanPtr r = Inr (s, r)"
  by simp

lemma FinalizeLoop_null:
  "diff64 scanPtr (From s) < diff64 SemiSize HeaderSize \<Longrightarrow> Info (Headers s scanPtr) = None \<Longrightarrow>
   FinalizeLoop (Suc n) s scanPtr r =
     (case Forwardee (Headers s scanPtr) of Some f \<Rightarrow> FinalizeLoop n s f r | None \<Rightarrow> Inr (s, r))"
  by (simp add: Let_def)

lemma FinalizeLoop_finalize:
  "diff64 scanPtr (From s) < diff64 SemiSize HeaderSize \<Longrightarrow> Info (Headers s scanPtr) = Some info \<Longrightarrow>
   Forwardee (Headers s scanPtr) = None \<and> HasFinalize info \<Longrightarrow>
   FinalizeLoop (Suc n) s scanPtr r =
     FinalizeLoop n (s\<lparr>Finalized := Finalized s @ [scanPtr]\<rparr>) (scanPtr + Size info) r"
  by (simp add: Let_def)

lemma FinalizeLoop_pinned:
  "diff64 scanPtr (From s) < diff64 SemiSize HeaderSize \<Longrightarrow> Info (Headers s scanPtr) = Some info \<Longrightarrow>
   Forwardee (Headers s scanPtr) = Some scanPtr \<Longrightarrow>
   FinalizeLoop (Suc n) s scanPtr r =
     FinalizeLoop n (if r \<noteq> scanPtr
                      then write_header s r \<lparr>Info = None, Forwardee = Some scanPtr\<rparr> else s)
       (scanPtr + Size info) (scanPtr + Size info)"
  by (simp add: Let_def)

lemma FinalizeLoop_other:
  "diff64 scanPtr (From s) < diff64 SemiSize HeaderSize \<Longrightarrow> Info (Headers s scanPtr) = Some info \<Longrightarrow>
   \<not> (Forwardee (Headers s scanPtr) = None \<and> HasFinalize info) \<Longrightarrow>
   Forwardee (Headers s scanPtr) \<noteq> Some scanPtr \<Longrightarrow>
   FinalizeLoop (Suc n) s scanPtr r = FinalizeLoop n s (scanPtr + Size info) r"
  by (auto simp: Let_def)

lemma FinalizeLoop_effect:
  "FinalizeLoop n s scanPtr r = Inr (s', r') \<Longrightarrow> spaces_ok s \<Longrightarrow> record_slot_ok s scanPtr r \<Longrightarrow>
     fin_eff s s' r'"
proof (induction n arbitrary: s scanPtr r)
  case 0
  then show ?case by simp
next
  case (Suc n)
  note ok = Suc.prems(2) and slot = Suc.prems(3)
  show ?case
  proof (cases "From s \<le> scanPtr \<and> scanPtr < From s + 496")
    case False
    then have "\<not> diff64 scanPtr (From s) < diff64 SemiSize HeaderSize"
      using ok by (simp add: scan_in_range)
    from Suc.prems(1)[unfolded FinalizeLoop_out[OF this]] have "s' = s" "r' = r" by simp_all
    with slot False show ?thesis by (auto simp: record_slot_ok_def intro!: fin_eff_id)
  next
    case True
    note inr = this
    then have b: "diff64 scanPtr (From s) < diff64 SemiSize HeaderSize"
      using ok by (simp add: scan_in_range)
    show ?thesis
    proof (cases "Info (Headers s scanPtr)")
      case None
      note nul = this
      show ?thesis
      proof (cases "Forwardee (Headers s scanPtr)")
        case None
        with Suc.prems(1)[unfolded FinalizeLoop_null[OF b nul]] have "s' = s" "r' = r" by simp_all
        with slot inr None show ?thesis by (auto simp: record_slot_ok_def intro!: fin_eff_id)
      next
        case (Some f)
        with Suc.prems(1)[unfolded FinalizeLoop_null[OF b nul]]
        have rec: "FinalizeLoop n s f r = Inr (s', r')" by simp
        have "record_slot_ok s f r" using slot inr Some by (auto simp: record_slot_ok_def)
        from Suc.IH[OF rec ok this] show ?thesis .
      qed
    next
      case (Some info)
      note inf = this
      show ?thesis
      proof (cases "Forwardee (Headers s scanPtr) = None \<and> HasFinalize info")
        case True
        let ?s1 = "s\<lparr>Finalized := Finalized s @ [scanPtr]\<rparr>"
        from Suc.prems(1)[unfolded FinalizeLoop_finalize[OF b inf True]]
        have rec: "FinalizeLoop n ?s1 (scanPtr + Size info) r = Inr (s', r')" .
        have ok1: "spaces_ok ?s1" using ok by (simp add: spaces_ok_def)
        have "record_slot_ok ?s1 (scanPtr + Size info) r"
          using slot inr True by (auto simp: record_slot_ok_def)
        from Suc.IH[OF rec ok1 this] show ?thesis by (rule fin_eff_Finalized)
      next
        case False
        note nofin = this
        show ?thesis
        proof (cases "Forwardee (Headers s scanPtr) = Some scanPtr")
          case False
          from Suc.prems(1)[unfolded FinalizeLoop_other[OF b inf nofin False]]
          have rec: "FinalizeLoop n s (scanPtr + Size info) r = Inr (s', r')" .
          have "record_slot_ok s (scanPtr + Size info) r"
            using slot inr False by (auto simp: record_slot_ok_def)
          from Suc.IH[OF rec ok this] show ?thesis .
        next
          case True
          note pinned = this
          note rec0 = Suc.prems(1)[unfolded FinalizeLoop_pinned[OF b inf pinned]]
          show ?thesis
          proof (cases "r = scanPtr")
            case True
            with rec0 have rec: "FinalizeLoop n s (scanPtr + Size info) (scanPtr + Size info) = Inr (s', r')"
              by simp
            have "record_slot_ok s (scanPtr + Size info) (scanPtr + Size info)"
              using inr by (simp add: record_slot_ok_def)
            from Suc.IH[OF rec ok this] show ?thesis .
          next
            case False
            let ?s1 = "write_header s r \<lparr>Info = None, Forwardee = Some scanPtr\<rparr>"
            from False rec0
            have rec: "FinalizeLoop n ?s1 (scanPtr + Size info) (scanPtr + Size info) = Inr (s', r')"
              by simp
            have ok1: "spaces_ok ?s1" using ok by (simp add: spaces_ok_def write_header_def)
            have slot1: "record_slot_ok ?s1 (scanPtr + Size info) (scanPtr + Size info)"
              using inr by (simp add: record_slot_ok_def write_header_def)
            from False slot have rng: "From s \<le> r" "r < From s + 496" "Forwardee (Headers s r) \<noteq> Some r"
              by (auto simp: record_slot_ok_def)
            from fin_eff_write[OF rng Suc.IH[OF rec ok1 slot1]] show ?thesis .
          qed
        qed
      qed
    qed
  qed
qed

lemma Collect_Inr:
  assumes "Collect fuel s = Inr s'"
  obtains s1 s2 s3 r where
    "EvacuateRoots fuel (s\<lparr>AllocPtr := To s\<rparr>) (OnStackGCPtrs s) = Inr s1"
    "ScanLoop fuel s1 (To s) = Inr s2"
    "FinalizeLoop fuel s2 (From s2) (From s2) = Inr (s3, r)"
    "s' = (if r < From s3 + SemiSize - HeaderSize then write_header s3 r NullHeader else s3)
            \<lparr>From := To s3, To := From s3\<rparr>"
  using assms unfolding Collect_def Let_def
  by (auto split: sum.splits prod.splits simp: write_header_def)

lemma heap_ok_AllocPtr [simp]: "heap_ok (s\<lparr>AllocPtr := p\<rparr>) = heap_ok s"
  by (simp add: heap_ok_def spaces_ok_def known_def)

lemma to_cursor_set_ref [simp]: "to_cursor (set_ref s ob i v) = to_cursor s"
  by (simp add: to_cursor_def)

lemma to_cursor_Handles [simp]: "to_cursor (s\<lparr>Handles := h\<rparr>) = to_cursor s"
  by (simp add: to_cursor_def)

lemma Collect_phases_preserve:
  assumes E: "\<And>n s info a s' v. P s \<Longrightarrow> known s info \<Longrightarrow>
                Evacuate n s info (Some a) = Inr (s', v) \<Longrightarrow> P s'"
    and R: "\<And>s ob i v. P s \<Longrightarrow> P (set_ref s ob i v)"
    and H: "\<And>s h v. P s \<Longrightarrow> P (s\<lparr>Handles := (Handles s)(h := v)\<rparr>)"
    and P: "P (s\<lparr>AllocPtr := To s\<rparr>)"
    and 1: "EvacuateRoots fuel (s\<lparr>AllocPtr := To s\<rparr>) (OnStackGCPtrs s) = Inr s1"
    and 2: "ScanLoop fuel s1 scanPtr = Inr s2"
  shows "P s2"
proof -
  have "P s1"
    by (rule EvacuateRoots_preserves[where P=P and s="s\<lparr>AllocPtr := To s\<rparr>"
          and roots="OnStackGCPtrs s" and n=fuel])
       (erule (2) E, erule H, rule P, simp, rule 1)
  show ?thesis
    by (rule ScanLoop_preserves[where P=P]) (erule (2) E, erule R, rule \<open>P s1\<close>, rule 2)
qed

lemma Collect_heap_ok:
  assumes ok: "heap_ok s" and c: "Collect fuel s = Inr s'"
  shows "heap_ok s' \<and> cursor_ok s'"
proof -
  from c obtain s1 s2 s3 r where
    1: "EvacuateRoots fuel (s\<lparr>AllocPtr := To s\<rparr>) (OnStackGCPtrs s) = Inr s1" and
    2: "ScanLoop fuel s1 (To s) = Inr s2" and
    3: "FinalizeLoop fuel s2 (From s2) (From s2) = Inr (s3, r)" and
    s': "s' = (if r < From s3 + SemiSize - HeaderSize then write_header s3 r NullHeader else s3)
            \<lparr>From := To s3, To := From s3\<rparr>"
    by (rule Collect_Inr)
  let ?P = "\<lambda>s. heap_ok s \<and> to_cursor s"
  have P2: "?P s2"
  proof (rule Collect_phases_preserve[where P="?P", OF _ _ _ _ 1 2])
    show "?P (s\<lparr>AllocPtr := To s\<rparr>)" using ok by (simp add: to_cursor_def)
  qed (auto intro: heap_ok_Evacuate to_cursor_Evacuate heap_ok_set_ref heap_ok_Handles)
  then have sp2: "spaces_ok s2" by (simp add: heap_ok_def)
  have "record_slot_ok s2 (From s2) (From s2)" by (simp add: record_slot_ok_def)
  from FinalizeLoop_effect[OF 3 sp2 this] have eff: "fin_eff s2 s3 r" .
  then have fr: "From s3 = From s2" "To s3 = To s2" "AllocPtr s3 = AllocPtr s2"
    "OnStackGCPtrs s3 = OnStackGCPtrs s2"
    and inf: "\<And>x i. Info (Headers s3 x) = Some i \<Longrightarrow> Info (Headers s2 x) = Some i"
    unfolding fin_eff_def by blast+
  have kn: "known s2 i" if "known s' i" for i
    using that inf unfolding known_def s' fr[symmetric]
    by (auto simp: write_header_def NullHeader_def fr split: if_splits)
  have "spaces_ok s'" using sp2 unfolding s' spaces_ok_def
    by (auto simp: fr write_header_def)
  with kn P2 have "heap_ok s'" unfolding heap_ok_def by blast
  moreover have "cursor_ok s'" using P2 unfolding s' cursor_ok_def to_cursor_def
    by (auto simp: fr write_header_def)
  ultimately show ?thesis ..
qed

lemma no_room_From:
  assumes "spaces_ok s" "sz_ok info" "\<not> no_room SpaceFrom s (Size info)"
  shows "From s \<le> AllocPtr s \<and> AllocPtr s + Size info \<le> From s + SemiSize"
proof -
  from assms(2) have sz: "Size info \<le> 512" by (simp add: sz_ok_def SemiSize_def HeapSize_def)
  then have d: "diff64 SemiSize (Size info) = 512 - Size info"
    by (simp add: diff64_def SemiSize_def HeapSize_def)
  from assms(1) have t: "From s \<le> 512" by (auto simp: spaces_ok_def SemiSize_def HeapSize_def)
  from assms(3) have "diff64 (AllocPtr s) (From s) \<le> 512 - Size info"
    by (simp add: no_room_def no_room_at_def spaceBase_of_def d)
  with t sz have "From s \<le> AllocPtr s \<and> AllocPtr s \<le> From s + (512 - Size info)"
    by (subst (asm) diff64_le_iff) auto
  with sz show ?thesis unfolding SemiSize_def HeapSize_def by auto
qed

lemma AdjustAllocPtr_Suc_Some:
  "AdjustAllocPtr (Suc n) (Some c) SpaceFrom s sz =
     (case (if no_room_at (From s) s sz
            then (case c s of
                        Inl e \<Rightarrow> Inl (e, s)
                      | Inr s' \<Rightarrow> if no_room_at (From s) s' sz
                                  then Inl (BadAlloc, s') else Inr s')
            else Inr s) of
        Inl e \<Rightarrow> Inl e
      | Inr s0 \<Rightarrow>
         (case (Info (Headers s0 (AllocPtr s0)), Forwardee (Headers s0 (AllocPtr s0))) of
            (None, Some nextPinnedObject) \<Rightarrow>
              if diff64 nextPinnedObject (AllocPtr s0) < sz + HeaderSize
              then (case Info (Headers s0 nextPinnedObject) of
                      None \<Rightarrow> Inl (NullDeref, s0)
                    | Some i \<Rightarrow>
                        AdjustAllocPtr n (Some c) SpaceFrom
                          (s0\<lparr>AllocPtr := nextPinnedObject + Size i\<rparr>) sz)
              else Inr (s0, Headers s0 (AllocPtr s0))
          | _ \<Rightarrow> Inr (s0, Headers s0 (AllocPtr s0))))"
  unfolding AdjustAllocPtr.simps(2) Let_def spaceBase_of_def Space.case option.case by (rule refl)

text \<open>What \<^verbatim>\<open>AdjustAllocPtr\<close> with \<^verbatim>\<open>CollectIfNeeded\<close> keeps, if the collector keeps it.\<close>

lemma AdjustAllocPtr_From:
  assumes c: "\<And>s s'. P s \<Longrightarrow> c s = Inr s' \<Longrightarrow> P s'"
    and a: "\<And>s p. P s \<Longrightarrow> P (s\<lparr>AllocPtr := p\<rparr>)"
  shows "P s \<Longrightarrow> AdjustAllocPtr n (Some c) SpaceFrom s sz = Inr (s1, old) \<Longrightarrow>
         P s1 \<and> old = Headers s1 (AllocPtr s1)"
proof (induction n arbitrary: s)
  case 0
  then show ?case by simp
next
  case (Suc n)
  define r where "r = (if no_room_at (From s) s sz
            then (case c s of
                        Inl e \<Rightarrow> Inl (e, s)
                      | Inr s' \<Rightarrow> if no_room_at (From s) s' sz
                                  then Inl (BadAlloc, s') else Inr s')
            else Inr s)"
  note run = Suc.prems(2)[unfolded AdjustAllocPtr_Suc_Some, folded r_def]
  from run obtain s0 where r0: "r = Inr s0"
    by (cases r) auto
  have ok0: "P s0"
    using r0 Suc.prems(1) c unfolding r_def by (auto split: sum.splits if_splits)
  from run r0 have body:
    "(case (Info (Headers s0 (AllocPtr s0)), Forwardee (Headers s0 (AllocPtr s0))) of
            (None, Some nextPinnedObject) \<Rightarrow>
              if diff64 nextPinnedObject (AllocPtr s0) < sz + HeaderSize
              then (case Info (Headers s0 nextPinnedObject) of
                      None \<Rightarrow> Inl (NullDeref, s0)
                    | Some i \<Rightarrow>
                        AdjustAllocPtr n (Some c) SpaceFrom
                          (s0\<lparr>AllocPtr := nextPinnedObject + Size i\<rparr>) sz)
              else Inr (s0, Headers s0 (AllocPtr s0))
          | _ \<Rightarrow> Inr (s0, Headers s0 (AllocPtr s0))) = Inr (s1, old)"
    by simp
  show ?case
  proof (cases "\<exists>np. Info (Headers s0 (AllocPtr s0)) = None \<and> Forwardee (Headers s0 (AllocPtr s0)) = Some np
               \<and> diff64 np (AllocPtr s0) < sz + HeaderSize")
    case True
    then obtain np where np: "Info (Headers s0 (AllocPtr s0)) = None"
        "Forwardee (Headers s0 (AllocPtr s0)) = Some np" "diff64 np (AllocPtr s0) < sz + HeaderSize"
      by blast
    from body np obtain i :: GCInfo where
      rec: "AdjustAllocPtr n (Some c) SpaceFrom (s0\<lparr>AllocPtr := np + Size i\<rparr>) sz = Inr (s1, old)"
      by (auto split: option.splits)
    from Suc.IH[OF a[OF ok0] rec] show ?thesis .
  next
    case False
    with body have "s1 = s0" "old = Headers s0 (AllocPtr s0)"
      by (auto split: option.splits if_splits)
    with ok0 show ?thesis by simp
  qed
qed

text \<open>An adjustment that needs no collection is the same for both policies.\<close>

lemma AdjustAllocPtr_quiet:
  "AdjustAllocPtr n None sp s sz = Inr r \<Longrightarrow> AdjustAllocPtr n (Some c) sp s sz = Inr r"
proof (induction n arbitrary: s)
  case 0
  then show ?case by simp
next
  case (Suc n)
  note run = Suc.prems[unfolded AdjustAllocPtr_Suc_None]
  from run have nr: "\<not> no_room sp s sz" by (auto split: if_splits)
  then have nr': "\<not> no_room_at (spaceBase_of sp s) s sz" by (simp add: no_room_def)
  show ?case
  proof (cases "\<exists>np. Info (Headers s (AllocPtr s)) = None \<and> Forwardee (Headers s (AllocPtr s)) = Some np
               \<and> diff64 np (AllocPtr s) < sz + HeaderSize")
    case True
    then obtain np where np: "Info (Headers s (AllocPtr s)) = None"
        "Forwardee (Headers s (AllocPtr s)) = Some np" "diff64 np (AllocPtr s) < sz + HeaderSize"
      by blast
    from run nr np obtain i :: GCInfo where i: "Info (Headers s np) = Some i"
      and rec: "AdjustAllocPtr n None sp (s\<lparr>AllocPtr := np + Size i\<rparr>) sz = Inr r"
      by (auto split: option.splits)
    from Suc.IH[OF rec] nr' np i show ?thesis
      by (simp add: AdjustAllocPtr.simps(2) Let_def)
  next
    case False
    with run nr have "r = (s, Headers s (AllocPtr s))"
      by (auto split: option.splits if_splits)
    with False nr' show ?thesis
      by (auto simp: AdjustAllocPtr.simps(2) Let_def split: option.splits)
  qed
qed


lemma Collect_heap_ok': "heap_ok s \<Longrightarrow> Collect fuel s = Inr s' \<Longrightarrow> heap_ok s'"
  using Collect_heap_ok by blast

lemma known_GCPtr_ctor:
  "known (GCPtr_ctor s h info v) i \<longleftrightarrow> i = info \<or> known s i"
  by (auto simp: known_def GCPtr_ctor_def)

lemma Allocate_Inr:
  assumes "Allocate fuel s info ctor h = Inr (s', a)"
  obtains s1 old members where
    "AdjustAllocPtr fuel (Some (Collect fuel)) SpaceFrom s (Size info) = Inr (s1, old)"
    "s' = GCPtr_ctor (Allocate_guard
               ((write_header (s1\<lparr>Payloads := (Payloads s1)(AllocPtr s1 := members)\<rparr>) (AllocPtr s1)
                   \<lparr>Info = Some info, Forwardee = None\<rparr>)\<lparr>AllocPtr := AllocPtr s1 + Size info\<rparr>) old)
             h info (Some (AllocPtr s1))"
  using assms unfolding Allocate_def Let_def by (auto split: sum.splits option.splits)

lemma Allocate_heap_ok:
  assumes ok: "heap_ok s" and sz: "sz_ok info" and al: "Allocate fuel s info ctor h = Inr (s', a)"
  shows "heap_ok s'"
proof -
  from al obtain s1 old members where
    adj: "AdjustAllocPtr fuel (Some (Collect fuel)) SpaceFrom s (Size info) = Inr (s1, old)"
    and s': "s' = GCPtr_ctor (Allocate_guard
               ((write_header (s1\<lparr>Payloads := (Payloads s1)(AllocPtr s1 := members)\<rparr>) (AllocPtr s1)
                   \<lparr>Info = Some info, Forwardee = None\<rparr>)\<lparr>AllocPtr := AllocPtr s1 + Size info\<rparr>) old)
             h info (Some (AllocPtr s1))"
    by (rule Allocate_Inr)
  have "heap_ok s1 \<and> old = Headers s1 (AllocPtr s1)"
    by (rule AdjustAllocPtr_From[where c="Collect fuel" and P=heap_ok])
       (erule (1) Collect_heap_ok', simp, rule ok, rule adj)
  then have ok1: "heap_ok s1" and old: "old = Headers s1 (AllocPtr s1)" by blast+
  from ok1 have sp: "spaces_ok s1" by (simp add: heap_ok_def)
  have fr: "From s' = From s1" "To s' = To s1"
    unfolding s' by (simp_all add: GCPtr_ctor_def Allocate_guard_def write_header_def)
  have kn: "i = info \<or> known s1 i" if "known s' i" for i
    using that unfolding s' known_GCPtr_ctor old
    by (auto simp: known_def Allocate_guard_def write_header_def split: if_splits)
  have "spaces_ok s'" using sp by (simp add: spaces_ok_def fr)
  with kn ok1 sz show "heap_ok s'" unfolding heap_ok_def by blast
qed

lemma Allocate_cursor:
  assumes ok: "heap_ok s" and sz: "sz_ok info" and q: "finds_room fuel s (Size info)"
    and al: "Allocate fuel s info ctor h = Inr (s', a)"
  shows "cursor_ok s'"
proof -
  from q obtain r where n: "AdjustAllocPtr fuel None SpaceFrom s (Size info) = Inr r"
    by (auto simp: finds_room_def split: sum.splits)
  obtain s1 old where r: "r = (s1, old)" by (cases r)
  from AdjustAllocPtr_quiet[OF n] r
  have adj: "AdjustAllocPtr fuel (Some (Collect fuel)) SpaceFrom s (Size info) = Inr (s1, old)"
    by simp
  from AdjustAllocPtr_None[OF n[unfolded r]] obtain p where s1: "s1 = s\<lparr>AllocPtr := p\<rparr>"
    and nr: "\<not> no_room SpaceFrom s1 (Size info)" by blast
  from ok s1 have sp: "spaces_ok s1" by (simp add: heap_ok_def spaces_ok_def)
  from no_room_From[OF sp sz nr]
  have c: "From s1 \<le> AllocPtr s1" "AllocPtr s1 + Size info \<le> From s1 + SemiSize" by simp_all
  from al adj have "From s' = From s1 \<and> AllocPtr s' = AllocPtr s1 + Size info"
    by (auto elim!: Allocate_Inr simp: GCPtr_ctor_def Allocate_guard_def write_header_def)
  with c show ?thesis by (simp add: cursor_ok_def)
qed

lemma FinalizeAllLoop_frame:
  "FinalizeAllLoop n s base scanPtr = Inr s' \<Longrightarrow>
     Headers s' = Headers s \<and> From s' = From s \<and> To s' = To s \<and> AllocPtr s' = AllocPtr s \<and>
     OnStackGCPtrs s' = OnStackGCPtrs s"
proof (induction n arbitrary: s scanPtr)
  case 0
  then show ?case by simp
next
  case (Suc n)
  show ?case
  proof (cases "diff64 scanPtr base < diff64 SemiSize HeaderSize")
    case False
    with Suc.prems show ?thesis by simp
  next
    case True
    show ?thesis
    proof (cases "Info (Headers s scanPtr)")
      case None
      with Suc.prems True Suc.IH[of s] show ?thesis
        by (auto simp: Let_def split: option.splits)
    next
      case (Some info)
      let ?s1 = "if Forwardee (Headers s scanPtr) = None \<and> HasFinalize info
                 then s\<lparr>Finalized := Finalized s @ [scanPtr]\<rparr> else s"
      from Suc.prems True Some
      have "FinalizeAllLoop n ?s1 base (scanPtr + Size info) = Inr s'" by (simp add: Let_def)
      from Suc.IH[OF this] show ?thesis by (simp split: if_splits)
    qed
  qed
qed

lemma heap_ok_frame:
  "heap_ok s \<Longrightarrow> (\<And>x. Info (Headers s' x) = Info (Headers s x)) \<Longrightarrow> From s' = From s \<Longrightarrow>
   To s' = To s \<Longrightarrow> set (OnStackGCPtrs s') \<subseteq> set (OnStackGCPtrs s) \<Longrightarrow> heap_ok s'"
  unfolding heap_ok_def spaces_ok_def known_def by (simp, blast)

lemma heap_ok_GCPtr_ctor: "heap_ok s \<Longrightarrow> sz_ok info \<Longrightarrow> heap_ok (GCPtr_ctor s h info v)"
  unfolding heap_ok_def known_GCPtr_ctor by (auto simp: spaces_ok_def GCPtr_ctor_def)

text \<open>
  Every operation that returns keeps \<open>heap_ok\<close>; an operation other than an allocation
  that collects keeps the cursor in the from-space as well.
\<close>

lemma exec_op_heap_ok:
  assumes "heap_ok s" "op_ok x" "exec_op fuel x s = Inr s'"
  shows "heap_ok s'"
proof (cases x)
  case (OpAllocate info ctor h)
  with assms show ?thesis
    by (auto split: sum.splits dest: Allocate_heap_ok[rotated 2])
next
  case OpCollect
  with assms Collect_heap_ok[of s fuel s'] show ?thesis
    by (auto simp: with_heap_def split: sum.splits)
next
  case (OpPin h)
  with assms obtain a where "s' = write_header s a ((Headers s a)\<lparr>Forwardee := Some a\<rparr>)"
    by (auto simp: with_heap_def Pin_def split: sum.splits option.splits if_splits)
  with assms(1) show ?thesis by (auto intro!: heap_ok_frame[of s] simp: write_header_def)
next
  case (OpUnpin h)
  with assms obtain a where "s' = write_header s a ((Headers s a)\<lparr>Forwardee := None\<rparr>)"
    by (auto simp: with_heap_def Unpin_def split: sum.splits option.splits if_splits)
  with assms(1) show ?thesis by (auto intro!: heap_ok_frame[of s] simp: write_header_def)
next
  case (OpNew h info)
  with assms show ?thesis by (auto intro: heap_ok_GCPtr_ctor)
next
  case (OpCopy h info g)
  with assms show ?thesis by (auto intro: heap_ok_GCPtr_ctor)
next
  case OpDrop
  with assms have "s' = GCPtr_dtor s" by simp
  with assms(1) show ?thesis
    by (auto intro!: heap_ok_frame[of s] simp: GCPtr_dtor_def dest: in_set_butlastD)
next
  case (OpAssign h i g)
  with assms obtain ob where "s' = set_ref s ob i (Handles s g)"
    by (auto split: option.splits)
  with assms(1) show ?thesis by (auto intro!: heap_ok_frame[of s])
next
  case OpTeardown
  with assms obtain s1 where 1: "FinalizeAllLoop fuel s 0 0 = Inr s1"
    and 2: "FinalizeAllLoop fuel s1 SemiSize SemiSize = Inr s'"
    by (auto simp: with_heap_def FinalizeAll_def split: sum.splits if_splits)
  from FinalizeAllLoop_frame[OF 1] FinalizeAllLoop_frame[OF 2] assms(1) show ?thesis
    by (auto intro!: heap_ok_frame[of s])
qed

lemma exec_op_cursor:
  assumes "heap_ok s" "cursor_ok s" "op_ok x" "exec_op fuel x s = Inr s'"
    and q: "case x of OpAllocate info ctor h \<Rightarrow> finds_room fuel s (Size info) | _ \<Rightarrow> True"
  shows "cursor_ok s'"
proof (cases x)
  case (OpAllocate info ctor h)
  with assms show ?thesis
    by (auto split: sum.splits dest: Allocate_cursor[rotated 3])
next
  case OpCollect
  with assms Collect_heap_ok[of s fuel s'] show ?thesis
    by (auto simp: with_heap_def split: sum.splits)
next
  case (OpPin h)
  with assms show ?thesis
    by (auto simp: with_heap_def Pin_def cursor_ok_def write_header_def
             split: sum.splits option.splits if_splits)
next
  case (OpUnpin h)
  with assms show ?thesis
    by (auto simp: with_heap_def Unpin_def cursor_ok_def write_header_def
             split: sum.splits option.splits if_splits)
next
  case (OpNew h info)
  with assms show ?thesis by (auto simp: cursor_ok_def GCPtr_ctor_def)
next
  case (OpCopy h info g)
  with assms show ?thesis by (auto simp: cursor_ok_def GCPtr_ctor_def)
next
  case OpDrop
  with assms show ?thesis by (auto simp: cursor_ok_def GCPtr_dtor_def)
next
  case (OpAssign h i g)
  with assms show ?thesis by (auto simp: cursor_ok_def split: option.splits)
next
  case OpTeardown
  with assms obtain s1 where 1: "FinalizeAllLoop fuel s 0 0 = Inr s1"
    and 2: "FinalizeAllLoop fuel s1 SemiSize SemiSize = Inr s'"
    by (auto simp: with_heap_def FinalizeAll_def split: sum.splits if_splits)
  from FinalizeAllLoop_frame[OF 1] FinalizeAllLoop_frame[OF 2] assms(2) show ?thesis
    by (simp add: cursor_ok_def)
qed

lemma run_heap_ok:
  "heap_ok s \<Longrightarrow> list_all op_ok ops \<Longrightarrow> run fuel ops s = Inr s' \<Longrightarrow> heap_ok s'"
proof (induction ops arbitrary: s)
  case Nil
  then show ?case by simp
next
  case (Cons x xs)
  from Cons.prems(3) obtain s1 where 1: "exec_op fuel x s = Inr s1" and 2: "run fuel xs s1 = Inr s'"
    by (auto split: sum.splits)
  from exec_op_heap_ok[OF Cons.prems(1) _ 1] Cons.prems(2) have "heap_ok s1" by simp
  from Cons.IH[OF this _ 2] Cons.prems(2) show ?case by simp
qed

lemma run_inv:
  "inv s \<Longrightarrow> list_all op_ok ops \<Longrightarrow> quiet fuel ops s \<Longrightarrow> run fuel ops s = Inr s' \<Longrightarrow> inv s'"
proof (induction ops arbitrary: s)
  case Nil
  then show ?case by simp
next
  case (Cons x xs)
  from Cons.prems(4) obtain s1 where 1: "exec_op fuel x s = Inr s1" and 2: "run fuel xs s1 = Inr s'"
    by (auto split: sum.splits)
  from Cons.prems(3) 1
  have q: "case x of OpAllocate info ctor h \<Rightarrow> finds_room fuel s (Size info) | _ \<Rightarrow> True"
    and q1: "quiet fuel xs s1" by simp_all
  from Cons.prems(1,2) have "heap_ok s" "cursor_ok s" "op_ok x" by (simp_all add: inv_def)
  from exec_op_heap_ok[OF this(1,3) 1] exec_op_cursor[OF this 1 q] have "inv s1"
    by (simp add: inv_def)
  from Cons.IH[OF this _ q1 2] Cons.prems(2) show ?case by simp
qed

lemma inv_Heap_init: "inv Heap_init"
  by (simp add: inv_def heap_ok_def cursor_ok_def spaces_ok_def known_def Heap_init_def NullHeader_def)

lemma heap_ok_run_init:
  "list_all op_ok ops \<Longrightarrow> outcome (run fuel ops Heap_init) = None \<Longrightarrow>
   heap_ok (final (run fuel ops Heap_init))"
proof -
  assume ops: "list_all op_ok ops" and "outcome (run fuel ops Heap_init) = None"
  then obtain s where r: "run fuel ops Heap_init = Inr s"
    by (cases "run fuel ops Heap_init") (auto simp: outcome_def)
  from inv_Heap_init have "heap_ok Heap_init" by (simp add: inv_def)
  from run_heap_ok[OF this ops r] show ?thesis by (simp add: r final_def)
qed

lemma spaces_disjoint:
  "spaces_ok s \<Longrightarrow> InFrom s x \<Longrightarrow> To s \<le> y \<Longrightarrow> y < To s + SemiSize \<Longrightarrow> x \<noteq> y"
  by (auto simp: spaces_ok_def InFrom_def SemiSize_def HeapSize_def)

lemma guard_in_To:
  "spaces_ok s \<Longrightarrow> diff64 y (To s) < diff64 SemiSize HeaderSize \<Longrightarrow> To s \<le> y \<and> y < To s + SemiSize"
  by (subst (asm) diff64_less_iff)
     (auto simp: spaces_ok_def SemiSize_def HeapSize_def HeaderSize_def diff64_def)

lemma InFrom_AllocPtr [simp]: "InFrom (s\<lparr>AllocPtr := p\<rparr>) x = InFrom s x"
  by (simp add: InFrom_def)

text \<open>What an evacuation does to the headers of the from-space.\<close>

lemma Evacuate_Headers_From:
  assumes ok: "heap_ok s" and k: "known s info"
    and ev: "Evacuate n s info (Some a) = Inr (s', v)" and x: "InFrom s x"
  shows "Headers s' x = Headers s x \<or>
         (x = a \<and> Forwardee (Headers s a) \<noteq> Some a \<and>
          (\<exists>p. v = Some p \<and> To s \<le> p \<and> p < To s + SemiSize \<and>
               Headers s' x = (Headers s a)\<lparr>Forwardee := Some p\<rparr>))"
proof -
  from ok k have sp: "spaces_ok s" and sz: "sz_ok info" by (auto simp: heap_ok_def)
  from Evacuate_Some[OF ev] show ?thesis
  proof
    assume "Forwardee (Headers s a) = Some a \<and> s' = s \<and> v = Some a"
    then show ?thesis by simp
  next
    assume "Forwardee (Headers s a) \<noteq> Some a \<and>
          (\<exists>p. \<not> no_room SpaceTo (s\<lparr>AllocPtr := p\<rparr>) (Size info) \<and> v = Some p \<and>
               (Headers s (AllocPtr s) = NullHeader \<longrightarrow> p = AllocPtr s) \<and>
               s' = Evacuate_copy (s\<lparr>AllocPtr := p\<rparr>) info a)"
    then obtain p where np: "Forwardee (Headers s a) \<noteq> Some a"
      and nr: "\<not> no_room SpaceTo (s\<lparr>AllocPtr := p\<rparr>) (Size info)" and v: "v = Some p"
      and s': "s' = Evacuate_copy (s\<lparr>AllocPtr := p\<rparr>) info a" by blast
    from no_room_To[OF sp sz nr] sz have p: "To s \<le> p" "p < To s + SemiSize"
      by (auto simp: sz_ok_def HeaderSize_def)
    from spaces_disjoint[OF sp x p] have xp: "x \<noteq> p" .
    have xg: "x \<noteq> p + Size info" if "diff64 (p + Size info) (To s) < diff64 SemiSize HeaderSize"
      using guard_in_To[OF sp that] spaces_disjoint[OF sp x] by blast
    show ?thesis
    proof (cases "x = a")
      case False
      with xp xg have "Headers s' x = Headers s x"
        unfolding s' by (auto simp: Evacuate_copy_def Let_def write_header_def)
      then show ?thesis ..
    next
      case True
      with xp xg have "Headers s' x = (Headers s a)\<lparr>Forwardee := Some p\<rparr>"
        unfolding s' by (auto simp: Evacuate_copy_def Let_def write_header_def)
      with True np v p show ?thesis by blast
    qed
  qed
qed

lemma Evacuate_keeps_pinned:
  assumes "heap_ok s" "known s info" "Evacuate n s info (Some a) = Inr (s', v)"
    "InFrom s x" "Forwardee (Headers s x) = Some x"
  shows "Headers s' x = Headers s x"
  using Evacuate_Headers_From[OF assms(1-4)] assms(5) by auto

lemma Collect_keeps_pinned:
  assumes ok: "heap_ok s" and x: "InFrom s x" and pin: "Forwardee (Headers s x) = Some x"
    and c: "Collect fuel s = Inr s'"
  shows "Headers s' x = Headers s x \<and> From s' = To s \<and> To s' = From s"
proof -
  from c obtain s1 s2 s3 r where
    1: "EvacuateRoots fuel (s\<lparr>AllocPtr := To s\<rparr>) (OnStackGCPtrs s) = Inr s1" and
    2: "ScanLoop fuel s1 (To s) = Inr s2" and
    3: "FinalizeLoop fuel s2 (From s2) (From s2) = Inr (s3, r)" and
    s': "s' = (if r < From s3 + SemiSize - HeaderSize then write_header s3 r NullHeader else s3)
            \<lparr>From := To s3, To := From s3\<rparr>"
    by (rule Collect_Inr)
  let ?P = "\<lambda>t. heap_ok t \<and> From t = From s \<and> To t = To s \<and> Headers t x = Headers s x"
  have P2: "?P s2"
  proof (rule Collect_phases_preserve[where P="?P", OF _ _ _ _ 1 2])
    show "?P (s\<lparr>AllocPtr := To s\<rparr>)" using ok by simp
  next
    fix n t info a t' v
    assume P: "?P t" and k: "known t info" and ev: "Evacuate n t info (Some a) = Inr (t', v)"
    from P x pin have "InFrom t x" "Forwardee (Headers t x) = Some x" by (simp_all add: InFrom_def)
    from Evacuate_keeps_pinned[OF _ k ev this] heap_ok_Evacuate[OF _ k ev] Evacuate_frame[OF ev] P
    show "?P t'" by simp
  qed (auto intro: heap_ok_set_ref heap_ok_Handles)
  then have sp2: "spaces_ok s2" by (simp add: heap_ok_def)
  have "record_slot_ok s2 (From s2) (From s2)" by (simp add: record_slot_ok_def)
  from FinalizeLoop_effect[OF 3 sp2 this] have eff: "fin_eff s2 s3 r" .
  from eff have fr: "From s3 = From s2" "To s3 = To s2"
    and rr: "r < From s2 + 496 \<longrightarrow> Forwardee (Headers s3 r) \<noteq> Some r"
    and keep: "\<And>y. Forwardee (Headers s2 y) = Some y \<Longrightarrow> Headers s3 y = Headers s2 y"
    unfolding fin_eff_def by blast+
  from P2 pin have "Forwardee (Headers s2 x) = Some x" by simp
  from keep[OF this] P2 have h3: "Headers s3 x = Headers s x" by simp
  have "r \<noteq> x" if "r < From s3 + SemiSize - HeaderSize"
    using that rr h3 pin by (auto simp: fr SemiSize_def HeapSize_def HeaderSize_def)
  with h3 have "Headers s' x = Headers s x" unfolding s' by (auto simp: write_header_def)
  moreover have "From s' = To s" "To s' = From s" using P2 unfolding s'
    by (auto simp: fr write_header_def)
  ultimately show ?thesis by simp
qed

lemma laid_out_cong:
  "laid_out s a xs \<Longrightarrow> \<forall>i\<in>set xs. 0 < Size i \<Longrightarrow>
   \<forall>x. a \<le> x \<and> x < a + sum_list (map Size xs) \<longrightarrow> Info (Headers s' x) = Info (Headers s x) \<Longrightarrow>
   laid_out s' a xs"
proof (induction xs arbitrary: a)
  case Nil
  then show ?case by simp
next
  case (Cons i rest)
  from Cons.prems have 1: "Info (Headers s' a) = Some i" by simp
  have "laid_out s' (a + Size i) rest"
  proof (rule Cons.IH)
    show "laid_out s (a + Size i) rest" using Cons.prems(1) by simp
    show "\<forall>i\<in>set rest. 0 < Size i" using Cons.prems(2) by simp
    show "\<forall>x. a + Size i \<le> x \<and> x < a + Size i + sum_list (map Size rest) \<longrightarrow>
             Info (Headers s' x) = Info (Headers s x)"
      using Cons.prems(3) by (auto simp: add.assoc)
  qed
  with 1 show ?case by simp
qed


lemma Evacuate_copy_next:
  assumes "spaces_ok s1" "Headers s1 (AllocPtr s1) = NullHeader" "To s1 \<le> AllocPtr s1 + Size info"
  shows "Headers (Evacuate_copy s1 info a) (AllocPtr s1 + Size info) = NullHeader \<or>
         To s1 + 496 \<le> AllocPtr s1 + Size info"
proof (cases "diff64 (AllocPtr s1 + Size info) (To s1) < diff64 SemiSize HeaderSize")
  case True
  with assms(2) show ?thesis by (simp add: Evacuate_copy_def Let_def write_header_def)
next
  case False
  with assms(3) show ?thesis
    by (auto simp: diff64_def SemiSize_def HeapSize_def HeaderSize_def)
qed

lemma AdjustAllocPtr_no_skip:
  assumes "\<not> no_room sp s sz"
    "Info (Headers s (AllocPtr s)) \<noteq> None \<or> Forwardee (Headers s (AllocPtr s)) = None"
  shows "AdjustAllocPtr (Suc n) None sp s sz = Inr (s, Headers s (AllocPtr s))"
  using assms by (auto simp: AdjustAllocPtr_Suc_None split: option.splits)

lemma Evacuate_succeeds:
  assumes "Forwardee (Headers s a) \<noteq> Some a" "\<not> no_room SpaceTo s (Size info)"
    "Info (Headers s (AllocPtr s)) \<noteq> None \<or> Forwardee (Headers s (AllocPtr s)) = None"
  shows "Evacuate (Suc n) s info (Some a) = Inr (Evacuate_copy s info a, Some (AllocPtr s))"
  unfolding Evacuate_def AdjustAllocPtr_no_skip[OF assms(2,3)]
  using assms(1,2) by (simp add: Evacuate_copy_def Let_def)

lemma Evacuate_copy_result:
  assumes sp: "spaces_ok s1" and sz: "sz_ok info" and a: "InFrom s1 a"
    and nr: "\<not> no_room SpaceTo s1 (Size info)"
  shows "Headers (Evacuate_copy s1 info a) a = (Headers s1 a)\<lparr>Forwardee := Some (AllocPtr s1)\<rparr>"
    and "Headers (Evacuate_copy s1 info a) (AllocPtr s1) = \<lparr>Info = Some info, Forwardee = None\<rparr>"
    and "Payloads (Evacuate_copy s1 info a) (AllocPtr s1) = Payloads s1 a"
    and "To s1 \<le> AllocPtr s1" and "AllocPtr s1 < To s1 + SemiSize" and "AllocPtr s1 \<noteq> a"
proof -
  from nr have "\<not> no_room SpaceTo (s1\<lparr>AllocPtr := AllocPtr s1\<rparr>) (Size info)" by simp
  from no_room_To[OF sp sz this] sz
  show p: "To s1 \<le> AllocPtr s1" "AllocPtr s1 < To s1 + SemiSize"
    by (auto simp: sz_ok_def HeaderSize_def)
  from spaces_disjoint[OF sp a p] show ne: "AllocPtr s1 \<noteq> a" by simp
  have g: "a \<noteq> AllocPtr s1 + Size info"
    if "diff64 (AllocPtr s1 + Size info) (To s1) < diff64 SemiSize HeaderSize"
    using guard_in_To[OF sp that] spaces_disjoint[OF sp a] by blast
  from sz have pos: "0 < Size info" by (simp add: sz_ok_def HeaderSize_def)
  from ne g show "Headers (Evacuate_copy s1 info a) a = (Headers s1 a)\<lparr>Forwardee := Some (AllocPtr s1)\<rparr>"
    by (auto simp: Evacuate_copy_def Let_def write_header_def)
  from ne pos show "Headers (Evacuate_copy s1 info a) (AllocPtr s1) = \<lparr>Info = Some info, Forwardee = None\<rparr>"
    by (auto simp: Evacuate_copy_def Let_def write_header_def)
  show "Payloads (Evacuate_copy s1 info a) (AllocPtr s1) = Payloads s1 a"
    by (simp add: Evacuate_copy_def Let_def write_header_def)
qed

section \<open>The collection copies what is reachable\<close>

text \<open>
  \<open>copying s objs t L D\<close> is the invariant of the two loops of \<^verbatim>\<open>Collect\<close> over the roots and
  over the copies. It is kept by \<^verbatim>\<open>Evacuate\<close> on an object that is not yet copied and by the
  redirection of a member in \<^verbatim>\<open>ProcessReference\<close>; at the end of the scan loop every
  member of every copy is redirected, which makes the copied objects closed under the
  references.
\<close>

lemma copy_of_notin [simp]: "b \<notin> set L \<Longrightarrow> copy_of s base L b = b"
  by (induction L arbitrary: base) auto

lemma copy_of_append:
  "copy_of s base (L @ [a]) b =
     (if b \<in> set L then copy_of s base L b
      else if b = a then base + sum_list (map (size_at s) L) else b)"
  by (induction L arbitrary: base) (auto simp: add.assoc)

lemma copy_of_range:
  "b \<in> set L \<Longrightarrow> base \<le> copy_of s base L b \<and>
     copy_of s base L b + size_at s b \<le> base + sum_list (map (size_at s) L)"
proof (induction L arbitrary: base)
  case Nil
  then show ?case by simp
next
  case (Cons a L)
  show ?case
  proof (cases "b = a")
    case True
    then show ?thesis by simp
  next
    case False
    with Cons.prems have "b \<in> set L" by simp
    from Cons.IH[OF this, of "base + size_at s a"] False show ?thesis by simp
  qed
qed

lemma copy_of_inj:
  assumes "\<forall>a\<in>set L. 0 < size_at s a" "a \<in> set L" "b \<in> set L"
    "copy_of s base L a = copy_of s base L b"
  shows "a = b"
  using assms
proof (induction L arbitrary: base)
  case Nil
  then show ?case by simp
next
  case (Cons c L)
  from Cons.prems(1) have pos: "0 < size_at s c" and rest: "\<forall>a\<in>set L. 0 < size_at s a" by auto
  show ?case
  proof (cases "a = c")
    case True
    show ?thesis
    proof (cases "b = c")
      case True
      with \<open>a = c\<close> show ?thesis by simp
    next
      case False
      with Cons.prems(3) have "b \<in> set L" by simp
      from copy_of_range[OF this, of "base + size_at s c" s] pos Cons.prems(4) True False
      show ?thesis by simp
    qed
  next
    case False
    note ac = this
    with Cons.prems(2) have a: "a \<in> set L" by simp
    show ?thesis
    proof (cases "b = c")
      case True
      from copy_of_range[OF a, of "base + size_at s c" s] pos Cons.prems(4) True ac
      show ?thesis by simp
    next
      case False
      with Cons.prems(3) have b: "b \<in> set L" by simp
      from Cons.prems(4) ac False
      have "copy_of s (base + size_at s c) L a = copy_of s (base + size_at s c) L b" by simp
      from Cons.IH[OF rest a b this] show ?thesis .
    qed
  qed
qed

lemma copy_of_take:
  "j < length L \<Longrightarrow> distinct L \<Longrightarrow>
   copy_of s base L (L ! j) = base + sum_list (map (size_at s) (take j L))"
proof (induction L arbitrary: base j)
  case Nil
  then show ?case by simp
next
  case (Cons a L)
  show ?case
  proof (cases j)
    case 0
    then show ?thesis by simp
  next
    case (Suc i)
    with Cons.prems have i: "i < length L" and d: "distinct L" and ne: "L ! i \<noteq> a" by auto
    from Cons.IH[OF i d, of "base + size_at s a"] ne Suc show ?thesis by (simp add: add.assoc)
  qed
qed

lemma object_okD:
  assumes "object_ok s objs a"
  shows "InFrom s a"
    and "Forwardee (Headers s a) = None \<or> Forwardee (Headers s a) = Some a"
    and "\<exists>i. Info (Headers s a) = Some i \<and> HeaderSize < Size i \<and> Size i \<le> SemiSize \<and>
             size_at s a = Size i"
  using assms by (auto simp: object_ok_def size_at_def split: option.splits)

lemma object_ok_member:
  assumes "object_ok s objs a" "Info (Headers s a) = Some i" "k < NumPtrs i"
    "Payloads s a k = Some b"
  shows "b \<in> set objs" and "Forwardee (Headers s a) = Some a \<Longrightarrow> Forwardee (Headers s b) = Some b"
  using assms by (auto simp: object_ok_def list_all_iff split: option.splits)

lemma copyingD:
  assumes "copying s objs t L D"
  shows "From t = From s" and "To t = To s" and "OnStackGCPtrs t = OnStackGCPtrs s"
    and "distinct L" and "set L \<subseteq> set objs" and "set L \<subseteq> reach s"
    and "\<And>a. a \<in> set L \<Longrightarrow> Forwardee (Headers s a) = None"
    and "AllocPtr t = To s + sum_list (map (size_at s) L)"
    and "AllocPtr t \<le> To s + SemiSize"
    and "Headers t (AllocPtr t) = NullHeader \<or> To s + 496 \<le> AllocPtr t"
    and "\<And>x. InFrom s x \<Longrightarrow> x \<in> set L \<Longrightarrow>
           Headers t x = (Headers s x)\<lparr>Forwardee := Some (copy_of s (To s) L x)\<rparr>"
    and "\<And>x. InFrom s x \<Longrightarrow> x \<notin> set L \<Longrightarrow> Headers t x = Headers s x"
    and "\<And>x. InFrom s x \<Longrightarrow> Payloads t x = Payloads s x"
    and "\<And>a. a \<in> set L \<Longrightarrow>
           Headers t (copy_of s (To s) L a) = \<lparr>Info = Info (Headers s a), Forwardee = None\<rparr>"
    and "\<And>a k. a \<in> set L \<Longrightarrow> (a, k) \<in> D \<Longrightarrow>
           Payloads t (copy_of s (To s) L a) k = map_option (copy_of s (To s) L) (Payloads s a k)"
    and "\<And>a k. a \<in> set L \<Longrightarrow> (a, k) \<notin> D \<Longrightarrow>
           Payloads t (copy_of s (To s) L a) k = Payloads s a k"
    and "\<And>a k. (a, k) \<in> D \<Longrightarrow> a \<in> set L"
    and "\<And>a k b. (a, k) \<in> D \<Longrightarrow> Payloads s a k = Some b \<Longrightarrow>
           b \<in> set L \<or> Forwardee (Headers s b) = Some b"
  using assms unfolding copying_def by auto

lemma copyingI:
  assumes "From t = From s" and "To t = To s" and "OnStackGCPtrs t = OnStackGCPtrs s"
    and "distinct L" and "set L \<subseteq> set objs" and "set L \<subseteq> reach s"
    and "\<And>a. a \<in> set L \<Longrightarrow> Forwardee (Headers s a) = None"
    and "AllocPtr t = To s + sum_list (map (size_at s) L)"
    and "AllocPtr t \<le> To s + SemiSize"
    and "Headers t (AllocPtr t) = NullHeader \<or> To s + 496 \<le> AllocPtr t"
    and "\<And>x. InFrom s x \<Longrightarrow> x \<in> set L \<Longrightarrow>
           Headers t x = (Headers s x)\<lparr>Forwardee := Some (copy_of s (To s) L x)\<rparr>"
    and "\<And>x. InFrom s x \<Longrightarrow> x \<notin> set L \<Longrightarrow> Headers t x = Headers s x"
    and "\<And>x. InFrom s x \<Longrightarrow> Payloads t x = Payloads s x"
    and "\<And>a. a \<in> set L \<Longrightarrow>
           Headers t (copy_of s (To s) L a) = \<lparr>Info = Info (Headers s a), Forwardee = None\<rparr>"
    and "\<And>a k. a \<in> set L \<Longrightarrow> (a, k) \<in> D \<Longrightarrow>
           Payloads t (copy_of s (To s) L a) k = map_option (copy_of s (To s) L) (Payloads s a k)"
    and "\<And>a k. a \<in> set L \<Longrightarrow> (a, k) \<notin> D \<Longrightarrow>
           Payloads t (copy_of s (To s) L a) k = Payloads s a k"
    and "\<And>a k. (a, k) \<in> D \<Longrightarrow> a \<in> set L"
    and "\<And>a k b. (a, k) \<in> D \<Longrightarrow> Payloads s a k = Some b \<Longrightarrow>
           b \<in> set L \<or> Forwardee (Headers s b) = Some b"
  shows "copying s objs t L D"
  unfolding copying_def
proof (intro conjI ballI allI impI)
  fix x assume "InFrom s x"
  with assms(11,12)[of x]
  show "Headers t x = (if x \<in> set L
                       then (Headers s x)\<lparr>Forwardee := Some (copy_of s (To s) L x)\<rparr>
                       else Headers s x)" by simp
next
  fix a k assume "a \<in> set L"
  with assms(15,16)[of a k]
  show "Payloads t (copy_of s (To s) L a) k =
        (if (a, k) \<in> D then map_option (copy_of s (To s) L) (Payloads s a k)
         else Payloads s a k)" by simp
next
  fix x assume "x \<in> D"
  then obtain a k where x: "x = (a, k)" "(a, k) \<in> D" by (cases x) auto
  from assms(17)[OF x(2)] assms(18)[OF x(2)]
  show "case x of (a, k) \<Rightarrow> a \<in> set L \<and>
        (\<forall>b. Payloads s a k = Some b \<longrightarrow> b \<in> set L \<or> Forwardee (Headers s b) = Some b)"
    unfolding x(1) by simp
qed (use assms in simp_all)

lemma Evacuate_copy_Payloads:
  "Payloads (Evacuate_copy t info b) = (Payloads t)(AllocPtr t := Payloads t b)"
  by (simp add: Evacuate_copy_def Let_def write_header_def)

lemma Evacuate_copy_Headers:
  "b \<noteq> AllocPtr t \<Longrightarrow>
   Headers (Evacuate_copy t info b) x =
     (if x = AllocPtr t + Size info \<and>
         diff64 (AllocPtr t + Size info) (To t) < diff64 SemiSize HeaderSize
      then Headers t (AllocPtr t)
      else if x = b then (Headers t b)\<lparr>Forwardee := Some (AllocPtr t)\<rparr>
      else if x = AllocPtr t then \<lparr>Info = Some info, Forwardee = None\<rparr>
      else Headers t x)"
  by (simp add: Evacuate_copy_def Let_def write_header_def)

lemma copy_of_prefix [simp]:
  "b \<in> set L \<Longrightarrow> copy_of s base (L @ L') b = copy_of s base L b"
  by (induction L arbitrary: base) auto

lemma copying_copy_in_To:
  assumes W: "\<forall>a\<in>set objs. object_ok s objs a" and C: "copying s objs t L D" and a: "a \<in> set L"
  shows "To s \<le> copy_of s (To s) L a" and "copy_of s (To s) L a < AllocPtr t"
    and "copy_of s (To s) L a < To s + SemiSize"
proof -
  note c = copyingD[OF C]
  from a c(5) W have "object_ok s objs a" by auto
  from object_okD(3)[OF this] have pos: "0 < size_at s a" by auto
  from copy_of_range[OF a, of "To s" s] pos c(8)
  show "To s \<le> copy_of s (To s) L a" and lt: "copy_of s (To s) L a < AllocPtr t" by auto
  from lt c(9) show "copy_of s (To s) L a < To s + SemiSize" by simp
qed

lemma spaces_ok_frame: "spaces_ok s \<Longrightarrow> From t = From s \<Longrightarrow> To t = To s \<Longrightarrow> spaces_ok t"
  by (simp add: spaces_ok_def)

lemma copying_Evacuate_copy:
  assumes sp: "spaces_ok s" and W: "\<forall>a\<in>set objs. object_ok s objs a"
    and C: "copying s objs t L D"
    and b: "b \<in> set objs" "b \<notin> set L" "Forwardee (Headers s b) = None" "b \<in> reach s"
    and info: "Info (Headers s b) = Some info"
    and nr: "\<not> no_room SpaceTo t (Size info)"
  shows "copying s objs (Evacuate_copy t info b) (L @ [b]) D"
proof -
  note c = copyingD[OF C]
  let ?p = "AllocPtr t"
  let ?t' = "Evacuate_copy t info b"
  from b(1) W have okb: "object_ok s objs b" by auto
  from object_okD[OF okb] info have fb: "InFrom s b" and big: "HeaderSize < Size info"
    and le: "Size info \<le> SemiSize" and szb: "size_at s b = Size info" by auto
  have sz: "sz_ok info" using big le by (simp add: sz_ok_def)
  have spt: "spaces_ok t" using sp c(1,2) by (rule spaces_ok_frame)
  from nr have "\<not> no_room SpaceTo (t\<lparr>AllocPtr := ?p\<rparr>) (Size info)" by simp
  from no_room_To[OF spt sz this] c(2)
  have rng: "To s \<le> ?p" "?p + Size info \<le> To s + SemiSize" by simp_all
  with big have low: "?p < To s + 496" by (simp add: SemiSize_def HeapSize_def HeaderSize_def)
  with c(10) have nul: "Headers t ?p = NullHeader" by simp
  have pos: "0 < Size info" using big by (simp add: HeaderSize_def)
  have inTo: "x \<noteq> y" if "InFrom s x" "To s \<le> y" "y < To s + SemiSize" for x y
    using spaces_disjoint[OF sp that] .
  have bp: "b \<noteq> ?p" using inTo[OF fb rng(1)] rng(2) pos by simp
  have g: "To s \<le> y \<and> y < To s + SemiSize"
    if "diff64 y (To t) < diff64 SemiSize HeaderSize" for y
    using guard_in_To[OF spt that] c(2) by simp
  note H = Evacuate_copy_Headers[OF bp, of info]
  have Hfrom: "Headers ?t' x = (if x = b then (Headers t b)\<lparr>Forwardee := Some ?p\<rparr> else Headers t x)"
    if "InFrom s x" for x
  proof -
    from inTo[OF that rng(1)] rng(2) pos have 1: "x \<noteq> ?p" by simp
    have 2: "x \<noteq> ?p + Size info"
      if "diff64 (?p + Size info) (To t) < diff64 SemiSize HeaderSize"
      using inTo[OF \<open>InFrom s x\<close>] g[OF that] by blast
    from 1 2 show ?thesis unfolding H by auto
  qed
  have Hold: "Headers ?t' y = Headers t y" if "To s \<le> y" "y < ?p" for y
  proof -
    from that rng have "y < To s + SemiSize" by simp
    from inTo[OF fb that(1) this] have "y \<noteq> b" by simp
    with that show ?thesis unfolding H by auto
  qed
  have cp: "copy_of s (To s) (L @ [b]) x = copy_of s (To s) L x" if "x \<in> set L" for x
    using that by simp
  have cb: "copy_of s (To s) (L @ [b]) b = ?p"
    using b(2) c(8) by (simp add: copy_of_append)
  have old: "To s \<le> copy_of s (To s) L a \<and> copy_of s (To s) L a < ?p" if "a \<in> set L" for a
    using copying_copy_in_To[OF W C that] by simp
  show ?thesis
  proof (rule copyingI)
    show "From ?t' = From s" "To ?t' = To s" "OnStackGCPtrs ?t' = OnStackGCPtrs s"
      using c(1-3) by simp_all
    show "distinct (L @ [b])" using c(4) b(2) by simp
    show "set (L @ [b]) \<subseteq> set objs" using c(5) b(1) by simp
    show "set (L @ [b]) \<subseteq> reach s" using c(6) b(4) by simp
    show "Forwardee (Headers s a) = None" if "a \<in> set (L @ [b])" for a
      using that c(7) b(3) by auto
    show "AllocPtr ?t' = To s + sum_list (map (size_at s) (L @ [b]))"
      using c(8) szb by simp
    show "AllocPtr ?t' \<le> To s + SemiSize" using rng by simp
    show "Headers ?t' (AllocPtr ?t') = NullHeader \<or> To s + 496 \<le> AllocPtr ?t'"
      using Evacuate_copy_next[OF spt nul, of info b] rng c(2) by simp
    show "Headers ?t' x = (Headers s x)\<lparr>Forwardee := Some (copy_of s (To s) (L @ [b]) x)\<rparr>"
      if "InFrom s x" "x \<in> set (L @ [b])" for x
    proof (cases "x = b")
      case True
      with Hfrom[OF that(1)] c(12)[OF fb b(2)] cb show ?thesis by simp
    next
      case False
      with that(2) have "x \<in> set L" by simp
      with Hfrom[OF that(1)] False c(11)[OF that(1)] show ?thesis by simp
    qed
    show "Headers ?t' x = Headers s x" if "InFrom s x" "x \<notin> set (L @ [b])" for x
      using Hfrom[OF that(1)] that(2) c(12)[OF that(1)] by simp
    show "Payloads ?t' x = Payloads s x" if "InFrom s x" for x
    proof -
      from inTo[OF that rng(1)] rng(2) pos have "x \<noteq> ?p" by simp
      with c(13)[OF that] show ?thesis by (simp add: Evacuate_copy_Payloads)
    qed
    show "Headers ?t' (copy_of s (To s) (L @ [b]) a) = \<lparr>Info = Info (Headers s a), Forwardee = None\<rparr>"
      if "a \<in> set (L @ [b])" for a
    proof (cases "a = b")
      case True
      have "Headers ?t' ?p = \<lparr>Info = Some info, Forwardee = None\<rparr>"
        using bp pos unfolding H by simp
      with True cb info show ?thesis by simp
    next
      case False
      with that have a: "a \<in> set L" by simp
      from old[OF a] have "Headers ?t' (copy_of s (To s) L a) = Headers t (copy_of s (To s) L a)"
        by (intro Hold) simp_all
      with c(14)[OF a] cp[OF a] show ?thesis by simp
    qed
    show "Payloads ?t' (copy_of s (To s) (L @ [b]) a) k =
            map_option (copy_of s (To s) (L @ [b])) (Payloads s a k)"
      if "a \<in> set (L @ [b])" "(a, k) \<in> D" for a k
    proof -
      from c(17)[OF that(2)] have a: "a \<in> set L" .
      from old[OF a] have "Payloads ?t' (copy_of s (To s) L a) = Payloads t (copy_of s (To s) L a)"
        by (simp add: Evacuate_copy_Payloads)
      with c(15)[OF a that(2)] cp[OF a]
      have 1: "Payloads ?t' (copy_of s (To s) (L @ [b]) a) k =
               map_option (copy_of s (To s) L) (Payloads s a k)" by simp
      have "map_option (copy_of s (To s) (L @ [b])) (Payloads s a k) =
            map_option (copy_of s (To s) L) (Payloads s a k)"
      proof (cases "Payloads s a k")
        case None
        then show ?thesis by simp
      next
        case (Some m)
        from c(18)[OF that(2) Some] show ?thesis
        proof
          assume "m \<in> set L"
          then show ?thesis using Some by simp
        next
          assume pin: "Forwardee (Headers s m) = Some m"
          with c(7)[of m] b(3) have "m \<notin> set L" "m \<noteq> b" by auto
          then show ?thesis using Some by (simp add: copy_of_append)
        qed
      qed
      with 1 show ?thesis by simp
    qed
    show "Payloads ?t' (copy_of s (To s) (L @ [b]) a) k = Payloads s a k"
      if "a \<in> set (L @ [b])" "(a, k) \<notin> D" for a k
    proof (cases "a = b")
      case True
      with cb c(13)[OF fb] show ?thesis by (simp add: Evacuate_copy_Payloads)
    next
      case False
      with that have a: "a \<in> set L" by simp
      from old[OF a] have "Payloads ?t' (copy_of s (To s) L a) = Payloads t (copy_of s (To s) L a)"
        by (simp add: Evacuate_copy_Payloads)
      with c(16)[OF a that(2)] cp[OF a] show ?thesis by simp
    qed
    show "a \<in> set (L @ [b])" if "(a, k) \<in> D" for a k
      using c(17)[OF that] by simp
    show "m \<in> set (L @ [b]) \<or> Forwardee (Headers s m) = Some m"
      if "(a, k) \<in> D" "Payloads s a k = Some m" for a k m
      using c(18)[OF that] by auto
  qed
qed

lemma copying_redirect:
  assumes sp: "spaces_ok s" and W: "\<forall>a\<in>set objs. object_ok s objs a"
    and C: "copying s objs t L D" and a: "a \<in> set L"
    and m: "Payloads s a k = Some b" "b \<in> set L \<or> Forwardee (Headers s b) = Some b"
  shows "copying s objs (set_ref t (copy_of s (To s) L a) k (Some (copy_of s (To s) L b))) L
           (insert (a, k) D)"
proof -
  note c = copyingD[OF C]
  let ?c = "copy_of s (To s) L a"
  let ?t' = "set_ref t ?c k (Some (copy_of s (To s) L b))"
  have P: "Payloads ?t' x = (if x = ?c then (Payloads t ?c)(k := Some (copy_of s (To s) L b))
                             else Payloads t x)" for x
    by (simp add: set_ref_def)
  note inTo = copying_copy_in_To[OF W C]
  have pos: "\<forall>a\<in>set L. 0 < size_at s a"
  proof
    fix x assume "x \<in> set L"
    with c(5) W have "object_ok s objs x" by auto
    from object_okD(3)[OF this] show "0 < size_at s x" by auto
  qed
  show ?thesis
  proof (rule copyingI)
    show "From ?t' = From s" "To ?t' = To s" "OnStackGCPtrs ?t' = OnStackGCPtrs s"
      "distinct L" "set L \<subseteq> set objs" "set L \<subseteq> reach s"
      "AllocPtr ?t' = To s + sum_list (map (size_at s) L)" "AllocPtr ?t' \<le> To s + SemiSize"
      "Headers ?t' (AllocPtr ?t') = NullHeader \<or> To s + 496 \<le> AllocPtr ?t'"
      using c(1-6,8-10) by simp_all
    show "Forwardee (Headers s x) = None" if "x \<in> set L" for x using c(7)[OF that] .
    show "Headers ?t' x = (Headers s x)\<lparr>Forwardee := Some (copy_of s (To s) L x)\<rparr>"
      if "InFrom s x" "x \<in> set L" for x using c(11)[OF that] by simp
    show "Headers ?t' x = Headers s x" if "InFrom s x" "x \<notin> set L" for x
      using c(12)[OF that] by simp
    show "Payloads ?t' x = Payloads s x" if "InFrom s x" for x
    proof -
      from spaces_disjoint[OF sp that inTo(1)[OF a] inTo(3)[OF a]] have "x \<noteq> ?c" .
      with c(13)[OF that] show ?thesis by (simp add: P)
    qed
    show "Headers ?t' (copy_of s (To s) L x) = \<lparr>Info = Info (Headers s x), Forwardee = None\<rparr>"
      if "x \<in> set L" for x using c(14)[OF that] by simp
    show "Payloads ?t' (copy_of s (To s) L x) j = map_option (copy_of s (To s) L) (Payloads s x j)"
      if "x \<in> set L" "(x, j) \<in> insert (a, k) D" for x j
    proof (cases "x = a")
      case True
      show ?thesis
      proof (cases "j = k")
        case True
        with \<open>x = a\<close> m(1) show ?thesis by (simp add: P)
      next
        case False
        with that(2) True have "(a, j) \<in> D" by simp
        from c(15)[OF a this] False True show ?thesis by (simp add: P)
      qed
    next
      case False
      with that(2) have d: "(x, j) \<in> D" by simp
      from copy_of_inj[OF pos that(1) a] False have "copy_of s (To s) L x \<noteq> ?c" by blast
      with c(15)[OF that(1) d] show ?thesis by (simp add: P)
    qed
    show "Payloads ?t' (copy_of s (To s) L x) j = Payloads s x j"
      if "x \<in> set L" "(x, j) \<notin> insert (a, k) D" for x j
    proof (cases "x = a")
      case True
      with that(2) have "j \<noteq> k" "(a, j) \<notin> D" by auto
      with c(16)[OF a this(2)] True show ?thesis by (simp add: P)
    next
      case False
      from that(2) have d: "(x, j) \<notin> D" by simp
      from copy_of_inj[OF pos that(1) a] False have "copy_of s (To s) L x \<noteq> ?c" by blast
      with c(16)[OF that(1) d] show ?thesis by (simp add: P)
    qed
    show "x \<in> set L" if "(x, j) \<in> insert (a, k) D" for x j
      using that c(17) a by auto
    show "y \<in> set L \<or> Forwardee (Headers s y) = Some y"
      if "(x, j) \<in> insert (a, k) D" "Payloads s x j = Some y" for x j y
    proof (cases "(x, j) = (a, k)")
      case True
      with that(2) m show ?thesis by simp
    next
      case False
      with that(1) have "(x, j) \<in> D" by auto
      from c(18)[OF this that(2)] show ?thesis .
    qed
  qed
qed

lemma copying_null_member:
  assumes C: "copying s objs t L D" and a: "a \<in> set L" and m: "Payloads s a k = None"
  shows "copying s objs t L (insert (a, k) D)"
proof -
  note c = copyingD[OF C]
  show ?thesis
  proof (rule copyingI)
    show "Payloads t (copy_of s (To s) L x) j = map_option (copy_of s (To s) L) (Payloads s x j)"
      if "x \<in> set L" "(x, j) \<in> insert (a, k) D" for x j
    proof (cases "(x, j) \<in> D")
      case True
      from c(15)[OF that(1) this] show ?thesis .
    next
      case False
      with that(2) have "x = a" "j = k" by auto
      with c(16)[OF that(1) False] m show ?thesis by simp
    qed
    show "Payloads t (copy_of s (To s) L x) j = Payloads s x j"
      if "x \<in> set L" "(x, j) \<notin> insert (a, k) D" for x j
      using c(16)[OF that(1)] that(2) by simp
    show "x \<in> set L" if "(x, j) \<in> insert (a, k) D" for x j
      using that c(17) a by auto
    show "y \<in> set L \<or> Forwardee (Headers s y) = Some y"
      if "(x, j) \<in> insert (a, k) D" "Payloads s x j = Some y" for x j y
    proof (cases "(x, j) = (a, k)")
      case True
      with that(2) m show ?thesis by simp
    next
      case False
      with that(1) have "(x, j) \<in> D" by auto
      from c(18)[OF this that(2)] show ?thesis .
    qed
  qed (use c in simp_all)
qed

lemma copying_Evacuate:
  assumes sp: "spaces_ok s" and W: "\<forall>a\<in>set objs. object_ok s objs a"
    and C: "copying s objs t L D"
    and b: "b \<in> set objs" "b \<notin> set L" "Forwardee (Headers s b) = None" "b \<in> reach s"
    and info: "Info (Headers s b) = Some info"
    and ev: "Evacuate n t info (Some b) = Inr (t1, v)"
  shows "v = Some (copy_of s (To s) (L @ [b]) b) \<and> copying s objs t1 (L @ [b]) D"
proof -
  note c = copyingD[OF C]
  from b(1) W have okb: "object_ok s objs b" by auto
  from object_okD[OF okb] info have fb: "InFrom s b" and big: "HeaderSize < Size info"
    and le: "Size info \<le> SemiSize" by auto
  have sz: "sz_ok info" using big le by (simp add: sz_ok_def)
  have spt: "spaces_ok t" using sp c(1,2) by (rule spaces_ok_frame)
  from c(12)[OF fb b(2)] b(3) have np: "Forwardee (Headers t b) \<noteq> Some b" by simp
  from Evacuate_room[OF ev np] have nr: "\<not> no_room SpaceTo t (Size info)" .
  then have "\<not> no_room SpaceTo (t\<lparr>AllocPtr := AllocPtr t\<rparr>) (Size info)" by simp
  from no_room_To[OF spt sz this] c(2) big
  have low: "AllocPtr t < To s + 496" by (simp add: SemiSize_def HeapSize_def HeaderSize_def)
  with c(10) have nul: "Headers t (AllocPtr t) = NullHeader" by simp
  from Evacuate_Some[OF ev] np nul
  have v: "v = Some (AllocPtr t)" and t1: "t1 = Evacuate_copy (t\<lparr>AllocPtr := AllocPtr t\<rparr>) info b"
    by auto
  have t1': "t1 = Evacuate_copy t info b" unfolding t1 by simp
  have "copy_of s (To s) (L @ [b]) b = AllocPtr t" using b(2) c(8) by (simp add: copy_of_append)
  with v copying_Evacuate_copy[OF sp W C b info nr] t1' show ?thesis by simp
qed

lemma copying_ProcessReference:
  assumes sp: "spaces_ok s" and W: "\<forall>a\<in>set objs. object_ok s objs a"
    and C: "copying s objs t L D" and a: "a \<in> set L" and k: "k < num_ptrs_at s a"
    and nd: "(a, k) \<notin> D"
    and run: "ProcessReference n t (copy_of s (To s) L a) k = Inr t'"
  shows "\<exists>L'. copying s objs t' (L @ L') (insert (a, k) D)"
proof -
  note c = copyingD[OF C]
  let ?c = "copy_of s (To s) L a"
  from a c(5) W have oka: "object_ok s objs a" by auto
  from object_okD(3)[OF oka] obtain ia where ia: "Info (Headers s a) = Some ia" by auto
  with k have k': "k < NumPtrs ia" by (simp add: num_ptrs_at_def)
  have pl: "Payloads t ?c k = Payloads s a k" using c(16)[OF a nd] .
  show ?thesis
  proof (cases "Payloads s a k")
    case None
    with run pl have "t' = t" by (simp add: ProcessReference_def)
    with copying_null_member[OF C a None] show ?thesis by (intro exI[of _ "[]"]) simp
  next
    case (Some b)
    note m = this
    from object_ok_member(1)[OF oka ia k' m] have bo: "b \<in> set objs" .
    with W have okb: "object_ok s objs b" by auto
    from object_okD[OF okb] obtain info where fb: "InFrom s b"
      and fw: "Forwardee (Headers s b) = None \<or> Forwardee (Headers s b) = Some b"
      and info: "Info (Headers s b) = Some info" by auto
    have ra: "a \<in> reach s" using a c(6) by auto
    have rb: "b \<in> reach s" by (rule reach.member[OF ra ia k' m])
    have ft: "InFrom t b" using fb c(1) by (simp add: InFrom_def)
    show ?thesis
    proof (cases "b \<in> set L")
      case True
      from c(11)[OF fb True] info
      have h: "Info (Headers t b) = Some info"
        "Forwardee (Headers t b) = Some (copy_of s (To s) L b)" by simp_all
      with run pl m ft have "t' = set_ref t ?c k (Some (copy_of s (To s) L b))"
        by (simp add: ProcessReference_def)
      with copying_redirect[OF sp W C a m] True show ?thesis
        by (intro exI[of _ "[]"]) simp
    next
      case False
      note nb = this
      from c(12)[OF fb False] have hb: "Headers t b = Headers s b" .
      from fw show ?thesis
      proof
        assume pin: "Forwardee (Headers s b) = Some b"
        with run pl m ft hb info have "t' = set_ref t ?c k (Some b)"
          by (simp add: ProcessReference_def)
        with copying_redirect[OF sp W C a m] pin nb show ?thesis
          by (intro exI[of _ "[]"]) simp
      next
        assume un: "Forwardee (Headers s b) = None"
        with run pl m ft hb info obtain t1 v where
          ev: "Evacuate n t info (Some b) = Inr (t1, v)" and t': "t' = set_ref t1 ?c k v"
          by (auto simp: ProcessReference_def split: sum.splits)
        from copying_Evacuate[OF sp W C bo nb un rb info ev]
        have v: "v = Some (copy_of s (To s) (L @ [b]) b)"
          and C1: "copying s objs t1 (L @ [b]) D" by simp_all
        have a1: "a \<in> set (L @ [b])" using a by simp
        have "copying s objs
                (set_ref t1 (copy_of s (To s) (L @ [b]) a) k (Some (copy_of s (To s) (L @ [b]) b)))
                (L @ [b]) (insert (a, k) D)"
          by (rule copying_redirect[OF sp W C1 a1 m]) simp
        with a have "copying s objs t' (L @ [b]) (insert (a, k) D)"
          by (simp add: t' v)
        then show ?thesis by blast
      qed
    qed
  qed
qed

lemma copying_VisitPointers:
  assumes sp: "spaces_ok s" and W: "\<forall>a\<in>set objs. object_ok s objs a"
  shows "copying s objs t L D \<Longrightarrow> a \<in> set L \<Longrightarrow> distinct ks \<Longrightarrow>
         \<forall>k\<in>set ks. k < num_ptrs_at s a \<and> (a, k) \<notin> D \<Longrightarrow>
         VisitPointers n t (copy_of s (To s) L a) ks = Inr t' \<Longrightarrow>
         \<exists>L'. copying s objs t' (L @ L') (D \<union> {a} \<times> set ks)"
proof (induction ks arbitrary: t L D)
  case Nil
  then show ?case by (intro exI[of _ "[]"]) simp
next
  case (Cons k rest)
  from Cons.prems(5) obtain t1 where 1: "ProcessReference n t (copy_of s (To s) L a) k = Inr t1"
    and 2: "VisitPointers n t1 (copy_of s (To s) L a) rest = Inr t'"
    by (auto split: sum.splits)
  from Cons.prems(4) have k: "k < num_ptrs_at s a" "(a, k) \<notin> D" by simp_all
  from copying_ProcessReference[OF sp W Cons.prems(1,2) k 1]
  obtain L1 where C1: "copying s objs t1 (L @ L1) (insert (a, k) D)" by blast
  have a1: "a \<in> set (L @ L1)" using Cons.prems(2) by simp
  have d: "distinct rest" using Cons.prems(3) by simp
  have r: "\<forall>j\<in>set rest. j < num_ptrs_at s a \<and> (a, j) \<notin> insert (a, k) D"
    using Cons.prems(3,4) by auto
  have v2: "VisitPointers n t1 (copy_of s (To s) (L @ L1) a) rest = Inr t'"
    using 2 Cons.prems(2) by simp
  from Cons.IH[OF C1 a1 d r v2] obtain L2 where
    "copying s objs t' ((L @ L1) @ L2) (insert (a, k) D \<union> {a} \<times> set rest)" by blast
  moreover have "insert (a, k) D \<union> {a} \<times> set rest = D \<union> {a} \<times> set (k # rest)" by auto
  ultimately have "copying s objs t' (L @ (L1 @ L2)) (D \<union> {a} \<times> set (k # rest))" by simp
  then show ?case by blast
qed

lemma scanned_snoc: "scanned s (L @ [a]) = scanned s L \<union> {a} \<times> {0..<num_ptrs_at s a}"
  by (auto simp: scanned_def)

lemma sum_take_less:
  fixes f :: "'a \<Rightarrow> nat"
  shows "\<forall>a\<in>set L. 0 < f a \<Longrightarrow> j < length L \<Longrightarrow>
         sum_list (map f (take j L)) < sum_list (map f L)"
proof (induction L arbitrary: j)
  case Nil
  then show ?case by simp
next
  case (Cons a L)
  show ?case
  proof (cases j)
    case 0
    with Cons.prems show ?thesis by simp
  next
    case (Suc i)
    with Cons.prems have "i < length L" "\<forall>a\<in>set L. 0 < f a" by auto
    from Cons.IH[OF this(2,1)] Suc show ?thesis by simp
  qed
qed

lemma copying_ScanLoop:
  assumes sp: "spaces_ok s" and W: "\<forall>a\<in>set objs. object_ok s objs a"
  shows "copying s objs t L (scanned s (take j L)) \<Longrightarrow> j \<le> length L \<Longrightarrow>
         ScanLoop n t (To s + sum_list (map (size_at s) (take j L))) = Inr t' \<Longrightarrow>
         \<exists>L'. copying s objs t' (L @ L') (scanned s (L @ L'))"
proof (induction n arbitrary: t L j)
  case 0
  then show ?case by simp
next
  case (Suc n)
  note C = Suc.prems(1)
  note c = copyingD[OF C]
  let ?scan = "To s + sum_list (map (size_at s) (take j L))"
  have pos: "\<forall>a\<in>set L. 0 < size_at s a"
  proof
    fix x assume "x \<in> set L"
    with c(5) W have "object_ok s objs x" by auto
    from object_okD(3)[OF this] show "0 < size_at s x" by auto
  qed
  show ?case
  proof (cases "j < length L")
    case False
    with Suc.prems(2) have j: "j = length L" by simp
    with c(8) have "\<not> ?scan < AllocPtr t" by simp
    with Suc.prems(3) have "t' = t" by simp
    with C j show ?thesis by (intro exI[of _ "[]"]) simp
  next
    case True
    let ?a = "L ! j"
    have a: "?a \<in> set L" using True by simp
    from sum_take_less[OF pos True] c(8) have lt: "?scan < AllocPtr t" by simp
    have sc: "copy_of s (To s) L ?a = ?scan" by (rule copy_of_take[OF True c(4)])
    from a c(5) W have oka: "object_ok s objs ?a" by auto
    from object_okD(3)[OF oka] obtain info where info: "Info (Headers s ?a) = Some info"
      and sz: "size_at s ?a = Size info" by auto
    from c(14)[OF a] sc info have h: "Info (Headers t ?scan) = Some info" by simp
    from Suc.prems(3) lt h obtain t1 where
      v: "GCInfo_VisitPointer n info ?scan t = Inr t1"
      by (cases "GCInfo_VisitPointer n info ?scan t") auto
    then have vp: "VisitPointers n t (copy_of s (To s) L ?a) [0..<NumPtrs info] = Inr t1"
      by (simp add: GCInfo_VisitPointer_def sc)
    have np: "num_ptrs_at s ?a = NumPtrs info" using info by (simp add: num_ptrs_at_def)
    have aj: "?a \<notin> set (take j L)"
    proof
      assume "?a \<in> set (take j L)"
      then obtain i where i: "i < length (take j L)" "take j L ! i = ?a"
        by (auto simp: in_set_conv_nth)
      then have "i < j" "L ! i = L ! j" by simp_all
      with c(4) True show False by (auto simp: nth_eq_iff_index_eq)
    qed
    have fresh: "\<forall>k\<in>set [0..<NumPtrs info]. k < num_ptrs_at s ?a \<and> (?a, k) \<notin> scanned s (take j L)"
      using aj by (auto simp: np scanned_def)
    from copying_VisitPointers[OF sp W C a _ fresh vp]
    obtain L1 where C1: "copying s objs t1 (L @ L1)
        (scanned s (take j L) \<union> {?a} \<times> set [0..<NumPtrs info])" by auto
    have tk: "take (Suc j) (L @ L1) = take j L @ [?a]"
      using True by (simp add: take_Suc_conv_app_nth)
    have D1: "scanned s (take j L) \<union> {?a} \<times> set [0..<NumPtrs info]
              = scanned s (take (Suc j) (L @ L1))"
      unfolding tk scanned_snoc np by simp
    note c1 = copyingD[OF C1]
    have a1: "?a \<in> set (L @ L1)" using a by simp
    from c1(14)[OF a1] a sc info have h1: "Info (Headers t1 ?scan) = Some info" by simp
    from Suc.prems(3) lt h v h1
    have rec: "ScanLoop n t1 (?scan + Size info) = Inr t'" by simp
    have "?scan + Size info = To s + sum_list (map (size_at s) (take (Suc j) (L @ L1)))"
      unfolding tk using sz by simp
    with rec have rec': "ScanLoop n t1 (To s + sum_list (map (size_at s) (take (Suc j) (L @ L1))))
                          = Inr t'" by simp
    have j1: "Suc j \<le> length (L @ L1)" using True by simp
    from Suc.IH[OF C1[unfolded D1] j1 rec'] obtain L2 where
      "copying s objs t' ((L @ L1) @ L2) (scanned s ((L @ L1) @ L2))" by blast
    then have "copying s objs t' (L @ (L1 @ L2)) (scanned s (L @ (L1 @ L2)))" by simp
    then show ?thesis by blast
  qed
qed

lemma copying_Handles [simp]:
  "copying s objs (t\<lparr>Handles := h\<rparr>) L D = copying s objs t L D"
  by (simp add: copying_def)

lemma referents_Cons:
  "referents s ((h, info) # rs) =
     (case Handles s h of None \<Rightarrow> [] | Some b \<Rightarrow> [b]) @ referents s rs"
  by (simp add: referents_def)

lemma root_values_referents: "root_values s = referents s (OnStackGCPtrs s)"
  by (simp add: root_values_def referents_def)

lemma copying_unpinned:
  "copying s objs t L D \<Longrightarrow> Forwardee (Headers s a) = Some a \<Longrightarrow> a \<notin> set L"
  by (auto dest: copyingD(7))

lemma copying_EvacuateRoots:
  assumes sp: "spaces_ok s" and W: "\<forall>a\<in>set objs. object_ok s objs a"
  shows "copying s objs t L {} \<Longrightarrow>
         \<forall>r\<in>set rs. root_ok s objs r \<and> r \<in> set (OnStackGCPtrs s) \<and>
                     Handles t (fst r) = Handles s (fst r) \<Longrightarrow>
         distinct (map fst rs) \<Longrightarrow>
         distinct (filter (\<lambda>a. \<not> is_pinned s a) (referents s rs)) \<Longrightarrow>
         set L \<inter> set (referents s rs) = {} \<Longrightarrow>
         EvacuateRoots n t rs = Inr t' \<Longrightarrow>
         \<exists>L'. copying s objs t' (L @ L') {} \<and>
              (\<forall>r\<in>set rs. Handles t' (fst r)
                             = map_option (copy_of s (To s) (L @ L')) (Handles s (fst r))) \<and>
              (\<forall>r\<in>set rs. \<forall>a. Handles s (fst r) = Some a \<longrightarrow>
                             a \<in> set (L @ L') \<or> Forwardee (Headers s a) = Some a) \<and>
              (\<forall>g. g \<notin> fst ` set rs \<longrightarrow> Handles t' g = Handles t g) \<and>
              set L' \<subseteq> {a \<in> set (referents s rs). \<not> is_pinned s a}"
proof (induction rs arbitrary: t L)
  case Nil
  then show ?case by (intro exI[of _ "[]"]) simp
next
  case (Cons r rest)
  obtain h info where r: "r = (h, info)" by (cases r)
  note C = Cons.prems(1)
  note c = copyingD[OF C]
  from Cons.prems(6) r obtain t1 where 1: "GCInfo_Evacuate n info h t = Inr t1"
    and 2: "EvacuateRoots n t1 rest = Inr t'"
    by (auto split: sum.splits)
  from 1 obtain t0 v where ev: "Evacuate n t info (Handles t h) = Inr (t0, v)"
    and t1: "t1 = t0\<lparr>Handles := (Handles t0)(h := v)\<rparr>"
    by (auto simp: GCInfo_Evacuate_def split: sum.splits)
  from Cons.prems(2) r have rok: "root_ok s objs (h, info)"
    and rin: "(h, info) \<in> set (OnStackGCPtrs s)" and hh: "Handles t h = Handles s h" by auto
  from rok obtain a where a: "Handles s h = Some a" "a \<in> set objs" "Info (Headers s a) = Some info"
    by (auto simp: root_ok_def split: option.splits)
  from a(2) W have oka: "object_ok s objs a" by auto
  note oa = object_okD[OF oka]
  have ra: "a \<in> reach s" by (rule reach.root[OF rin a(1)])
  note ev = ev[unfolded hh a(1)]
  note fr = Evacuate_frame[OF ev]
  have refs: "referents s (r # rest) = a # referents s rest"
    using a(1) by (simp add: r referents_Cons)
  have hrest: "h \<notin> fst ` set rest" using Cons.prems(3) r by auto
  have d: "distinct (map fst rest)" using Cons.prems(3) by simp
  have dr: "distinct (filter (\<lambda>a. \<not> is_pinned s a) (referents s rest))"
    using Cons.prems(4) unfolding refs by (simp split: if_splits)
  have pin_iff: "is_pinned s a \<longleftrightarrow> Forwardee (Headers s a) = Some a"
    using a(3) by (simp add: is_pinned_def)
  have step: "\<exists>L1. copying s objs t1 (L @ L1) {} \<and>
                v = Some (copy_of s (To s) (L @ L1) a) \<and>
                (a \<in> set (L @ L1) \<or> Forwardee (Headers s a) = Some a) \<and>
                set (L @ L1) \<inter> set (referents s rest) = {} \<and>
                set L1 \<subseteq> {x \<in> {a}. \<not> is_pinned s x}"
  proof (cases "Forwardee (Headers s a) = Some a")
    case True
    from copying_unpinned[OF C True] have nl: "a \<notin> set L" .
    from c(12)[OF oa(1) nl] True have "Forwardee (Headers t a) = Some a" by simp
    with Evacuate_Some[OF ev] have "t0 = t" "v = Some a" by auto
    with C nl True Cons.prems(5) show ?thesis
      unfolding refs t1 by (intro exI[of _ "[]"]) auto
  next
    case False
    with oa(2) have un: "Forwardee (Headers s a) = None" by simp
    from Cons.prems(5) have nl: "a \<notin> set L" unfolding refs by auto
    from copying_Evacuate[OF sp W C a(2) nl un ra a(3) ev]
    have v: "v = Some (copy_of s (To s) (L @ [a]) a)" and C0: "copying s objs t0 (L @ [a]) {}"
      by simp_all
    have "a \<notin> set (referents s rest)"
      using Cons.prems(4) False unfolding refs by (auto simp: pin_iff)
    with Cons.prems(5) have "set (L @ [a]) \<inter> set (referents s rest) = {}"
      unfolding refs by auto
    with v C0 False show ?thesis unfolding t1 by (intro exI[of _ "[a]"]) (simp add: pin_iff)
  qed
  then obtain L1 where C1: "copying s objs t1 (L @ L1) {}"
    and v: "v = Some (copy_of s (To s) (L @ L1) a)"
    and al: "a \<in> set (L @ L1) \<or> Forwardee (Headers s a) = Some a"
    and disj: "set (L @ L1) \<inter> set (referents s rest) = {}"
    and sub1: "set L1 \<subseteq> {x \<in> {a}. \<not> is_pinned s x}" by blast
  have pr: "\<forall>r\<in>set rest. root_ok s objs r \<and> r \<in> set (OnStackGCPtrs s) \<and>
                     Handles t1 (fst r) = Handles s (fst r)"
  proof
    fix x assume x: "x \<in> set rest"
    with hrest have "fst x \<noteq> h" by auto
    with Cons.prems(2) x fr show "root_ok s objs x \<and> x \<in> set (OnStackGCPtrs s) \<and>
                     Handles t1 (fst x) = Handles s (fst x)" by (simp add: t1)
  qed
  from Cons.IH[OF C1 pr d dr disj 2] obtain L2 where
    C2: "copying s objs t' ((L @ L1) @ L2) {}"
    and H2: "\<forall>r\<in>set rest. Handles t' (fst r)
               = map_option (copy_of s (To s) ((L @ L1) @ L2)) (Handles s (fst r))"
    and R2: "\<forall>r\<in>set rest. \<forall>a. Handles s (fst r) = Some a \<longrightarrow>
               a \<in> set ((L @ L1) @ L2) \<or> Forwardee (Headers s a) = Some a"
    and O2: "\<forall>g. g \<notin> fst ` set rest \<longrightarrow> Handles t' g = Handles t1 g"
    and sub2: "set L2 \<subseteq> {a \<in> set (referents s rest). \<not> is_pinned s a}" by blast
  have sub: "set (L1 @ L2) \<subseteq> {a \<in> set (referents s (r # rest)). \<not> is_pinned s a}"
    using sub1 sub2 unfolding refs by auto
  have "copy_of s (To s) ((L @ L1) @ L2) a = copy_of s (To s) (L @ L1) a"
  proof (cases "a \<in> set (L @ L1)")
    case True
    then show ?thesis by (rule copy_of_prefix)
  next
    case False
    with al have pin: "Forwardee (Headers s a) = Some a" by simp
    from copying_unpinned[OF C2 pin] False show ?thesis by simp
  qed
  with O2 hrest v have Hh: "Handles t' h = map_option (copy_of s (To s) ((L @ L1) @ L2)) (Handles s h)"
    by (simp add: t1 a(1))
  have O: "\<forall>g. g \<notin> fst ` set (r # rest) \<longrightarrow> Handles t' g = Handles t g"
    using O2 fr by (auto simp: t1 r)
  have "copying s objs t' (L @ (L1 @ L2)) {} \<and>
        (\<forall>r\<in>set (r # rest). Handles t' (fst r)
            = map_option (copy_of s (To s) (L @ (L1 @ L2))) (Handles s (fst r))) \<and>
        (\<forall>r\<in>set (r # rest). \<forall>a. Handles s (fst r) = Some a \<longrightarrow>
            a \<in> set (L @ (L1 @ L2)) \<or> Forwardee (Headers s a) = Some a) \<and>
        (\<forall>g. g \<notin> fst ` set (r # rest) \<longrightarrow> Handles t' g = Handles t g) \<and>
        set (L1 @ L2) \<subseteq> {a \<in> set (referents s (r # rest)). \<not> is_pinned s a}"
    using C2 H2 R2 Hh al O a(1) sub by (auto simp: r)
  then show ?case by blast
qed

lemma collectableD:
  assumes "collectable s objs"
  shows "spaces_ok s" and "Headers s (To s) = NullHeader"
    and "\<forall>a\<in>set objs. object_ok s objs a"
    and "\<forall>r\<in>set (OnStackGCPtrs s). root_ok s objs r"
    and "distinct (map fst (OnStackGCPtrs s))"
    and "distinct (filter (\<lambda>a. \<not> is_pinned s a) (referents s (OnStackGCPtrs s)))"
  using assms by (simp_all add: collectable_def list_all_iff root_values_referents)

lemma copying_start:
  assumes "Headers s (To s) = NullHeader"
  shows "copying s objs (s\<lparr>AllocPtr := To s\<rparr>) [] {}"
  using assms by (simp add: copying_def)

lemma scanned_Nil [simp]: "scanned s [] = {}"
  by (simp add: scanned_def)

text \<open>When the scan loop has passed every copy, the copied objects are closed under the members.\<close>

lemma copying_closed:
  assumes W: "\<forall>a\<in>set objs. object_ok s objs a"
    and R: "\<forall>r\<in>set (OnStackGCPtrs s). root_ok s objs r"
    and C: "copying s objs t L (scanned s L)"
    and H: "\<forall>r\<in>set (OnStackGCPtrs s). \<forall>a. Handles s (fst r) = Some a \<longrightarrow>
              a \<in> set L \<or> Forwardee (Headers s a) = Some a"
    and a: "a \<in> reach s"
  shows "a \<in> set L \<or> (a \<in> set objs \<and> Forwardee (Headers s a) = Some a)"
  using a
proof (induction rule: reach.induct)
  case (root h info a)
  from R root(1) root(2) have "a \<in> set objs" by (auto simp: root_ok_def split: option.splits)
  with H root show ?case by fastforce
next
  case (member a i k b)
  note c = copyingD[OF C]
  have ao: "a \<in> set objs" using member.IH c(5) by auto
  with W have oka: "object_ok s objs a" by auto
  note mb = object_ok_member[OF oka member.hyps(2,3,4)]
  from member.IH show ?case
  proof
    assume "a \<in> set L"
    with member.hyps(2,3) have "(a, k) \<in> scanned s L" by (simp add: scanned_def num_ptrs_at_def)
    from c(18)[OF this member.hyps(4)] mb(1) show ?thesis by auto
  next
    assume "a \<in> set objs \<and> Forwardee (Headers s a) = Some a"
    with mb show ?thesis by simp
  qed
qed

lemma ScanLoop_Handles:
  "ScanLoop n s scanPtr = Inr s' \<Longrightarrow> Handles s' = Handles s"
  by (rule ScanLoop_preserves[where P="\<lambda>t. Handles t = Handles s" and s=s and n=n and scanPtr=scanPtr])
     (auto dest: Evacuate_frame)

lemma Collect_copies:
  assumes col: "collectable s objs" and run: "Collect fuel s = Inr s'"
  shows "\<exists>L. distinct L \<and> set L = {a \<in> reach s. \<not> is_pinned s a} \<and>
             From s' = To s \<and> To s' = From s \<and> OnStackGCPtrs s' = OnStackGCPtrs s \<and>
             AllocPtr s' = To s + sum_list (map (size_at s) L) \<and>
             AllocPtr s' \<le> To s + SemiSize \<and>
             (\<forall>a\<in>set L. To s \<le> copy_of s (To s) L a \<and> copy_of s (To s) L a < To s + SemiSize \<and>
                Headers s' (copy_of s (To s) L a) = \<lparr>Info = Info (Headers s a), Forwardee = None\<rparr> \<and>
                (\<forall>k<num_ptrs_at s a. Payloads s' (copy_of s (To s) L a) k
                     = map_option (copy_of s (To s) L) (Payloads s a k))) \<and>
             (\<forall>r\<in>set (OnStackGCPtrs s). Handles s' (fst r)
                  = map_option (copy_of s (To s) L) (Handles s (fst r))) \<and>
             (\<forall>x. InFrom s x \<and> Forwardee (Headers s x) = Some x \<longrightarrow> Headers s' x = Headers s x)"
proof -
  note w = collectableD[OF col]
  from run obtain s1 s2 s3 r where
    1: "EvacuateRoots fuel (s\<lparr>AllocPtr := To s\<rparr>) (OnStackGCPtrs s) = Inr s1" and
    2: "ScanLoop fuel s1 (To s) = Inr s2" and
    3: "FinalizeLoop fuel s2 (From s2) (From s2) = Inr (s3, r)" and
    s': "s' = (if r < From s3 + SemiSize - HeaderSize then write_header s3 r NullHeader else s3)
            \<lparr>From := To s3, To := From s3\<rparr>"
    by (rule Collect_Inr)
  let ?s0 = "s\<lparr>AllocPtr := To s\<rparr>"
  have C0: "copying s objs ?s0 [] {}" by (rule copying_start[OF w(2)])
  have pr: "\<forall>r\<in>set (OnStackGCPtrs s). root_ok s objs r \<and> r \<in> set (OnStackGCPtrs s) \<and>
              Handles ?s0 (fst r) = Handles s (fst r)" using w(4) by simp
  from copying_EvacuateRoots[OF w(1,3) C0 pr w(5,6) _ 1] obtain L1 where
    C1: "copying s objs s1 L1 {}"
    and H1: "\<forall>r\<in>set (OnStackGCPtrs s). Handles s1 (fst r)
               = map_option (copy_of s (To s) L1) (Handles s (fst r))"
    and R1: "\<forall>r\<in>set (OnStackGCPtrs s). \<forall>a. Handles s (fst r) = Some a \<longrightarrow>
               a \<in> set L1 \<or> Forwardee (Headers s a) = Some a"
    by auto
  have C1z: "copying s objs s1 L1 (scanned s (take 0 L1))" using C1 by simp
  have two: "ScanLoop fuel s1 (To s + sum_list (map (size_at s) (take 0 L1))) = Inr s2"
    using 2 by simp
  from copying_ScanLoop[OF w(1,3) C1z _ two] obtain L2 where
    C2: "copying s objs s2 (L1 @ L2) (scanned s (L1 @ L2))" by auto
  define L where "L = L1 @ L2"
  note C2 = C2[folded L_def]
  note c = copyingD[OF C2]
  have H2: "Handles s2 = Handles s1" by (rule ScanLoop_Handles[OF 2])
  have RL: "\<forall>r\<in>set (OnStackGCPtrs s). \<forall>a. Handles s (fst r) = Some a \<longrightarrow>
               a \<in> set L \<or> Forwardee (Headers s a) = Some a"
    using R1 by (auto simp: L_def)
  have HL: "Handles s2 (fst x) = map_option (copy_of s (To s) L) (Handles s (fst x))"
    if x: "x \<in> set (OnStackGCPtrs s)" for x
  proof (cases "Handles s (fst x)")
    case None
    with H1 x H2 show ?thesis by simp
  next
    case (Some a)
    have "copy_of s (To s) L a = copy_of s (To s) L1 a"
    proof (cases "a \<in> set L1")
      case True
      then show ?thesis unfolding L_def by (rule copy_of_prefix)
    next
      case False
      with R1 x Some have "Forwardee (Headers s a) = Some a" by blast
      from copying_unpinned[OF C2 this] False show ?thesis by simp
    qed
    with H1 x H2 Some show ?thesis by simp
  qed
  have setL: "set L = {a \<in> reach s. \<not> is_pinned s a}"
  proof (intro equalityI subsetI)
    fix a assume a: "a \<in> set L"
    with c(6) c(7)[OF a] show "a \<in> {a \<in> reach s. \<not> is_pinned s a}"
      by (auto simp: is_pinned_def)
  next
    fix a assume "a \<in> {a \<in> reach s. \<not> is_pinned s a}"
    then have ra: "a \<in> reach s" and np: "\<not> is_pinned s a" by auto
    from copying_closed[OF w(3,4) C2 RL ra] show "a \<in> set L"
    proof
      assume "a \<in> set objs \<and> Forwardee (Headers s a) = Some a"
      moreover from this w(3) have "object_ok s objs a" by auto
      from object_okD(3)[OF this] have "Info (Headers s a) \<noteq> None" by auto
      ultimately have "is_pinned s a" by (simp add: is_pinned_def)
      with np show ?thesis by simp
    qed
  qed
  have sp2: "spaces_ok s2" using w(1) c(1,2) by (rule spaces_ok_frame)
  have "record_slot_ok s2 (From s2) (From s2)" by (simp add: record_slot_ok_def)
  from FinalizeLoop_effect[OF 3 sp2 this] have eff: "fin_eff s2 s3 r" .
  then have fr: "From s3 = From s2" "To s3 = To s2" "AllocPtr s3 = AllocPtr s2"
      "Payloads s3 = Payloads s2" "Handles s3 = Handles s2" "OnStackGCPtrs s3 = OnStackGCPtrs s2"
    and r: "From s2 \<le> r"
    and rr: "r < From s2 + 496 \<longrightarrow> Forwardee (Headers s3 r) \<noteq> Some r"
    and out: "\<And>x. \<not> (From s2 \<le> x \<and> x < From s2 + 496) \<Longrightarrow> Headers s3 x = Headers s2 x"
    and keep: "\<And>y. Forwardee (Headers s2 y) = Some y \<Longrightarrow> Headers s3 y = Headers s2 y"
    unfolding fin_eff_def by blast+
  have frame2: "From s' = To s" "To s' = From s" "OnStackGCPtrs s' = OnStackGCPtrs s"
    "AllocPtr s' = AllocPtr s2" "Payloads s' = Payloads s2" "Handles s' = Handles s2"
    unfolding s' using c(1-3) by (auto simp: fr write_header_def)
  have Hs2: "Headers s' x = (if r < From s + 496 \<and> x = r then NullHeader else Headers s3 x)" for x
    unfolding s' by (auto simp: write_header_def fr c(1) SemiSize_def HeapSize_def HeaderSize_def)
  have inTo: "Headers s' x = Headers s2 x" if "To s \<le> x" "x < To s + SemiSize" for x
  proof -
    from that w(1) have nf: "\<not> (From s \<le> x \<and> x < From s + 496)"
      by (auto simp: spaces_ok_def SemiSize_def HeapSize_def)
    with r c(1) have "\<not> (r < From s + 496 \<and> x = r)" by auto
    with out[of x] nf c(1) show ?thesis by (auto simp: Hs2)
  qed
  have pinned: "Headers s' x = Headers s x" if "InFrom s x" "Forwardee (Headers s x) = Some x" for x
  proof -
    from copying_unpinned[OF C2 that(2)] c(12)[OF that(1)] have e: "Headers s2 x = Headers s x" by simp
    with that(2) keep[of x] have h3: "Headers s3 x = Headers s x" by simp
    with rr that(2) c(1) have "\<not> (r < From s + 496 \<and> x = r)" by auto
    with h3 show ?thesis by (auto simp: Hs2)
  qed
  have copies: "To s \<le> copy_of s (To s) L a \<and> copy_of s (To s) L a < To s + SemiSize \<and>
                Headers s' (copy_of s (To s) L a) = \<lparr>Info = Info (Headers s a), Forwardee = None\<rparr> \<and>
                (\<forall>k<num_ptrs_at s a. Payloads s' (copy_of s (To s) L a) k
                     = map_option (copy_of s (To s) L) (Payloads s a k))" if a: "a \<in> set L" for a
  proof -
    note i = copying_copy_in_To[OF w(3) C2 a]
    have "(a, k) \<in> scanned s L" if "k < num_ptrs_at s a" for k
      using that a by (simp add: scanned_def)
    with c(15)[OF a] inTo[OF i(1,3)] c(14)[OF a] i show ?thesis by (simp add: frame2)
  qed
  from c(4) setL frame2 c(8,9) copies HL pinned show ?thesis
    by (intro exI[of _ L]) (simp add: frame2)
qed

lemma copy_of_cover:
  "distinct L \<Longrightarrow> base \<le> x \<Longrightarrow> x < base + sum_list (map (size_at s) L) \<Longrightarrow>
   \<exists>a\<in>set L. copy_of s base L a \<le> x \<and> x < copy_of s base L a + size_at s a"
proof (induction L arbitrary: base)
  case Nil
  then show ?case by simp
next
  case (Cons c L)
  show ?case
  proof (cases "x < base + size_at s c")
    case True
    with Cons.prems(2) show ?thesis by (intro bexI[of _ c]) simp_all
  next
    case False
    from Cons.prems have d: "distinct L" and nc: "c \<notin> set L" by simp_all
    from False Cons.prems(3) have "base + size_at s c \<le> x"
      "x < base + size_at s c + sum_list (map (size_at s) L)" by simp_all
    from Cons.IH[OF d this] obtain a where a: "a \<in> set L"
      "copy_of s (base + size_at s c) L a \<le> x"
      "x < copy_of s (base + size_at s c) L a + size_at s a" by blast
    with nc have "a \<noteq> c" by auto
    with a show ?thesis by (intro bexI[of _ a]) simp_all
  qed
qed

text \<open>The same, seen from the heap after the collection.\<close>

lemma Collect_copies_new_from_space:
  assumes col: "collectable s objs" and run: "Collect fuel s = Inr s'"
  shows "\<exists>L. distinct L \<and> set L = {a \<in> reach s. \<not> is_pinned s a} \<and>
     From s' = To s \<and> To s' = From s \<and>
     AllocPtr s' = From s' + sum_list (map (size_at s) L) \<and>
     (\<forall>x. From s' \<le> x \<and> x < AllocPtr s' \<longrightarrow>
        (\<exists>a\<in>set L. copy_of s (From s') L a \<le> x \<and>
                   x < copy_of s (From s') L a + size_at s a)) \<and>
     (\<forall>a\<in>set L.
        InFrom s' (copy_of s (From s') L a) \<and>
        Headers s' (copy_of s (From s') L a)
          = \<lparr>Info = Info (Headers s a), Forwardee = None\<rparr> \<and>
        (\<forall>k<num_ptrs_at s a.
           Payloads s' (copy_of s (From s') L a) k
             = map_option (copy_of s (From s') L) (Payloads s a k))) \<and>
     (\<forall>r\<in>set (OnStackGCPtrs s).
        Handles s' (fst r) = map_option (copy_of s (From s') L) (Handles s (fst r))) \<and>
     (\<forall>a. InFrom s a \<and> is_pinned s a \<longrightarrow>
        Headers s' a = Headers s a \<and> \<not> InFrom s' a \<and> copy_of s (From s') L a = a)"
proof -
  from col have sp: "spaces_ok s" by (simp add: collectable_def)
  from Collect_copies[OF col run] obtain L where
    L: "distinct L" "set L = {a \<in> reach s. \<not> is_pinned s a}"
    and fr: "From s' = To s" "To s' = From s"
    and ap: "AllocPtr s' = To s + sum_list (map (size_at s) L)"
    and cp: "\<forall>a\<in>set L. To s \<le> copy_of s (To s) L a \<and> copy_of s (To s) L a < To s + SemiSize \<and>
                Headers s' (copy_of s (To s) L a) = \<lparr>Info = Info (Headers s a), Forwardee = None\<rparr> \<and>
                (\<forall>k<num_ptrs_at s a. Payloads s' (copy_of s (To s) L a) k
                     = map_option (copy_of s (To s) L) (Payloads s a k))"
    and hd: "\<forall>r\<in>set (OnStackGCPtrs s). Handles s' (fst r)
                  = map_option (copy_of s (To s) L) (Handles s (fst r))"
    and pn: "\<forall>x. InFrom s x \<and> Forwardee (Headers s x) = Some x \<longrightarrow> Headers s' x = Headers s x"
    by blast
  have cover: "\<forall>x. From s' \<le> x \<and> x < AllocPtr s' \<longrightarrow>
                 (\<exists>a\<in>set L. copy_of s (From s') L a \<le> x \<and>
                            x < copy_of s (From s') L a + size_at s a)"
    unfolding fr ap using copy_of_cover[OF L(1), of "To s" _ s] by blast
  have copies: "\<forall>a\<in>set L.
                   InFrom s' (copy_of s (From s') L a) \<and>
                   Headers s' (copy_of s (From s') L a)
                     = \<lparr>Info = Info (Headers s a), Forwardee = None\<rparr> \<and>
                   (\<forall>k<num_ptrs_at s a.
                      Payloads s' (copy_of s (From s') L a) k
                        = map_option (copy_of s (From s') L) (Payloads s a k))"
    using cp unfolding fr by (simp add: InFrom_def fr)
  have pinned: "\<forall>a. InFrom s a \<and> is_pinned s a \<longrightarrow>
                   Headers s' a = Headers s a \<and> \<not> InFrom s' a \<and> copy_of s (From s') L a = a"
    using pn sp L(2) unfolding fr
    by (auto simp: is_pinned_def InFrom_def fr spaces_ok_def SemiSize_def HeapSize_def)
  from L fr ap cover copies hd pinned
  show ?thesis
    by (intro exI[of _ L]) (simp add: fr)
qed

section \<open>The collection returns\<close>

text \<open>
  The objects copied are distinct objects of the from-space, so their copies fit into
  the to-space; the scan loop makes one round for each copy and the finalize walk one
  for each object of a from-space that holds its objects back to back.
\<close>

lemma sum_list_subset_le:
  fixes f :: "'a \<Rightarrow> nat"
  assumes "distinct L" "distinct objs" "set L \<subseteq> set objs"
  shows "sum_list (map f L) \<le> sum_list (map f objs)"
  using assms by (simp add: sum_list_distinct_conv_sum_set sum_mono2)

lemma copying_Evacuate_succeeds:
  assumes sp: "spaces_ok s" and W: "\<forall>a\<in>set objs. object_ok s objs a"
    and dist: "distinct objs" and bound: "sum_list (map (size_at s) objs) \<le> SemiSize"
    and C: "copying s objs t L D"
    and b: "b \<in> set objs" "b \<notin> set L" "Forwardee (Headers s b) = None"
    and info: "Info (Headers s b) = Some info"
  shows "\<exists>t1 v. Evacuate (Suc n) t info (Some b) = Inr (t1, v)"
proof -
  note c = copyingD[OF C]
  from b(1) W have okb: "object_ok s objs b" by auto
  from object_okD[OF okb] info have fb: "InFrom s b" and big: "HeaderSize < Size info"
    and le: "Size info \<le> SemiSize" and szb: "size_at s b = Size info" by auto
  from c(12)[OF fb b(2)] b(3) have np: "Forwardee (Headers t b) \<noteq> Some b" by simp
  have "sum_list (map (size_at s) (L @ [b])) \<le> sum_list (map (size_at s) objs)"
    by (rule sum_list_subset_le) (use c(4,5) b dist in auto)
  with bound szb have fit: "sum_list (map (size_at s) L) + Size info \<le> SemiSize" by simp
  have t512: "To s \<le> 512" using sp by (auto simp: spaces_ok_def SemiSize_def HeapSize_def)
  have nr: "\<not> no_room SpaceTo t (Size info)"
    using fit le c(8) c(2) t512
    by (simp add: no_room_def no_room_at_def spaceBase_of_def diff64_def SemiSize_def HeapSize_def)
  from fit big c(8) have low: "AllocPtr t < To s + 496"
    by (simp add: SemiSize_def HeapSize_def HeaderSize_def)
  with c(10) have nul: "Headers t (AllocPtr t) = NullHeader" by simp
  then have "Info (Headers t (AllocPtr t)) \<noteq> None \<or> Forwardee (Headers t (AllocPtr t)) = None"
    by (simp add: NullHeader_def)
  from Evacuate_succeeds[OF np nr this] show ?thesis by blast
qed

lemma copying_ProcessReference_succeeds:
  assumes sp: "spaces_ok s" and W: "\<forall>a\<in>set objs. object_ok s objs a"
    and dist: "distinct objs" and bound: "sum_list (map (size_at s) objs) \<le> SemiSize"
    and C: "copying s objs t L D" and a: "a \<in> set L" and k: "k < num_ptrs_at s a"
    and nd: "(a, k) \<notin> D"
  shows "\<exists>t'. ProcessReference (Suc n) t (copy_of s (To s) L a) k = Inr t'"
proof -
  note c = copyingD[OF C]
  let ?c = "copy_of s (To s) L a"
  from a c(5) W have oka: "object_ok s objs a" by auto
  from object_okD(3)[OF oka] obtain ia where ia: "Info (Headers s a) = Some ia" by auto
  with k have k': "k < NumPtrs ia" by (simp add: num_ptrs_at_def)
  have pl: "Payloads t ?c k = Payloads s a k" using c(16)[OF a nd] .
  show ?thesis
  proof (cases "Payloads s a k")
    case None
    with pl show ?thesis by (simp add: ProcessReference_def)
  next
    case (Some b)
    note m = this
    from object_ok_member(1)[OF oka ia k' m] have bo: "b \<in> set objs" .
    with W have okb: "object_ok s objs b" by auto
    from object_okD[OF okb] obtain info where fb: "InFrom s b"
      and fw: "Forwardee (Headers s b) = None \<or> Forwardee (Headers s b) = Some b"
      and info: "Info (Headers s b) = Some info" by auto
    have ft: "InFrom t b" using fb c(1) by (simp add: InFrom_def)
    show ?thesis
    proof (cases "b \<in> set L")
      case True
      from c(11)[OF fb True] info
      have h: "Info (Headers t b) = Some info"
        "Forwardee (Headers t b) = Some (copy_of s (To s) L b)" by simp_all
      with pl m ft show ?thesis by (simp add: ProcessReference_def)
    next
      case False
      from c(12)[OF fb False] have hb: "Headers t b = Headers s b" .
      from fw show ?thesis
      proof
        assume "Forwardee (Headers s b) = Some b"
        with pl m ft hb info show ?thesis by (simp add: ProcessReference_def)
      next
        assume un: "Forwardee (Headers s b) = None"
        from copying_Evacuate_succeeds[OF sp W dist bound C bo False un info, of n]
        obtain t1 v where "Evacuate (Suc n) t info (Some b) = Inr (t1, v)" by blast
        with pl m ft hb info un show ?thesis by (simp add: ProcessReference_def)
      qed
    qed
  qed
qed

lemma copying_VisitPointers_succeeds:
  assumes sp: "spaces_ok s" and W: "\<forall>a\<in>set objs. object_ok s objs a"
    and dist: "distinct objs" and bound: "sum_list (map (size_at s) objs) \<le> SemiSize"
  shows "copying s objs t L D \<Longrightarrow> a \<in> set L \<Longrightarrow> distinct ks \<Longrightarrow>
         \<forall>k\<in>set ks. k < num_ptrs_at s a \<and> (a, k) \<notin> D \<Longrightarrow>
         \<exists>t'. VisitPointers (Suc n) t (copy_of s (To s) L a) ks = Inr t'"
proof (induction ks arbitrary: t L D)
  case Nil
  then show ?case by simp
next
  case (Cons k rest)
  from Cons.prems(4) have k: "k < num_ptrs_at s a" "(a, k) \<notin> D" by simp_all
  from copying_ProcessReference_succeeds[OF sp W dist bound Cons.prems(1,2) k, of n]
  obtain t1 where 1: "ProcessReference (Suc n) t (copy_of s (To s) L a) k = Inr t1" by blast
  from copying_ProcessReference[OF sp W Cons.prems(1,2) k 1]
  obtain L1 where C1: "copying s objs t1 (L @ L1) (insert (a, k) D)" by blast
  have a1: "a \<in> set (L @ L1)" using Cons.prems(2) by simp
  have d: "distinct rest" using Cons.prems(3) by simp
  have r: "\<forall>j\<in>set rest. j < num_ptrs_at s a \<and> (a, j) \<notin> insert (a, k) D"
    using Cons.prems(3,4) by auto
  from Cons.IH[OF C1 a1 d r] obtain t' where
    "VisitPointers (Suc n) t1 (copy_of s (To s) (L @ L1) a) rest = Inr t'" by blast
  with 1 Cons.prems(2) show ?case by simp
qed

lemma distinct_length_le:
  assumes "distinct L" "set L \<subseteq> set objs"
  shows "length L \<le> length objs"
proof -
  have "length L = card (set L)" using assms(1) by (simp add: distinct_card)
  also have "\<dots> \<le> card (set objs)" using assms(2) by (intro card_mono) auto
  also have "\<dots> \<le> length objs" by (rule card_length)
  finally show ?thesis .
qed

lemma copying_ScanLoop_succeeds:
  assumes sp: "spaces_ok s" and W: "\<forall>a\<in>set objs. object_ok s objs a"
    and dist: "distinct objs" and bound: "sum_list (map (size_at s) objs) \<le> SemiSize"
  shows "copying s objs t L (scanned s (take j L)) \<Longrightarrow> j \<le> length L \<Longrightarrow>
         length objs + 1 \<le> j + n \<Longrightarrow>
         \<exists>t'. ScanLoop n t (To s + sum_list (map (size_at s) (take j L))) = Inr t'"
proof (induction n arbitrary: t L j)
  case 0
  note c = copyingD[OF 0(1)]
  from distinct_length_le[OF c(4,5)] 0(2,3) show ?case by simp
next
  case (Suc n)
  note C = Suc.prems(1)
  note c = copyingD[OF C]
  let ?scan = "To s + sum_list (map (size_at s) (take j L))"
  have pos: "\<forall>a\<in>set L. 0 < size_at s a"
  proof
    fix x assume "x \<in> set L"
    with c(5) W have "object_ok s objs x" by auto
    from object_okD(3)[OF this] show "0 < size_at s x" by auto
  qed
  show ?case
  proof (cases "j < length L")
    case False
    with Suc.prems(2) have j: "j = length L" by simp
    with c(8) have "\<not> ?scan < AllocPtr t" by simp
    then show ?thesis by simp
  next
    case True
    let ?a = "L ! j"
    have a: "?a \<in> set L" using True by simp
    from distinct_length_le[OF c(4,5)] True Suc.prems(3) obtain m where n: "n = Suc m"
      by (cases n) auto
    from sum_take_less[OF pos True] c(8) have lt: "?scan < AllocPtr t" by simp
    have sc: "copy_of s (To s) L ?a = ?scan" by (rule copy_of_take[OF True c(4)])
    from a c(5) W have oka: "object_ok s objs ?a" by auto
    from object_okD(3)[OF oka] obtain info where info: "Info (Headers s ?a) = Some info"
      and sz: "size_at s ?a = Size info" by auto
    from c(14)[OF a] sc info have h: "Info (Headers t ?scan) = Some info" by simp
    have np: "num_ptrs_at s ?a = NumPtrs info" using info by (simp add: num_ptrs_at_def)
    have aj: "?a \<notin> set (take j L)"
    proof
      assume "?a \<in> set (take j L)"
      then obtain i where i: "i < length (take j L)" "take j L ! i = ?a"
        by (auto simp: in_set_conv_nth)
      then have "i < j" "L ! i = L ! j" by simp_all
      with c(4) True show False by (auto simp: nth_eq_iff_index_eq)
    qed
    have fresh: "\<forall>k\<in>set [0..<NumPtrs info]. k < num_ptrs_at s ?a \<and> (?a, k) \<notin> scanned s (take j L)"
      using aj by (auto simp: np scanned_def)
    from copying_VisitPointers_succeeds[OF sp W dist bound C a _ fresh, of m]
    obtain t1 where vp: "VisitPointers n t (copy_of s (To s) L ?a) [0..<NumPtrs info] = Inr t1"
      unfolding n by auto
    then have v: "GCInfo_VisitPointer n info ?scan t = Inr t1"
      by (simp add: GCInfo_VisitPointer_def sc)
    from copying_VisitPointers[OF sp W C a _ fresh vp]
    obtain L1 where C1: "copying s objs t1 (L @ L1)
        (scanned s (take j L) \<union> {?a} \<times> set [0..<NumPtrs info])" by auto
    have tk: "take (Suc j) (L @ L1) = take j L @ [?a]"
      using True by (simp add: take_Suc_conv_app_nth)
    have D1: "scanned s (take j L) \<union> {?a} \<times> set [0..<NumPtrs info]
              = scanned s (take (Suc j) (L @ L1))"
      unfolding tk scanned_snoc np by simp
    note c1 = copyingD[OF C1]
    have a1: "?a \<in> set (L @ L1)" using a by simp
    from c1(14)[OF a1] a sc info have h1: "Info (Headers t1 ?scan) = Some info" by simp
    have e: "?scan + Size info = To s + sum_list (map (size_at s) (take (Suc j) (L @ L1)))"
      unfolding tk using sz by simp
    have j1: "Suc j \<le> length (L @ L1)" using True by simp
    have f1: "length objs + 1 \<le> Suc j + n" using Suc.prems(3) by simp
    from Suc.IH[OF C1[unfolded D1] j1 f1] obtain t' where
      "ScanLoop n t1 (?scan + Size info) = Inr t'" unfolding e by blast
    with lt h v h1 show ?thesis by simp
  qed
qed

lemma copying_EvacuateRoots_succeeds:
  assumes sp: "spaces_ok s" and W: "\<forall>a\<in>set objs. object_ok s objs a"
    and dist: "distinct objs" and bound: "sum_list (map (size_at s) objs) \<le> SemiSize"
  shows "copying s objs t L {} \<Longrightarrow>
         \<forall>r\<in>set rs. root_ok s objs r \<and> r \<in> set (OnStackGCPtrs s) \<and>
                     Handles t (fst r) = Handles s (fst r) \<Longrightarrow>
         distinct (map fst rs) \<Longrightarrow>
         distinct (filter (\<lambda>a. \<not> is_pinned s a) (referents s rs)) \<Longrightarrow>
         set L \<inter> set (referents s rs) = {} \<Longrightarrow>
         \<exists>t'. EvacuateRoots (Suc n) t rs = Inr t'"
proof (induction rs arbitrary: t L)
  case Nil
  then show ?case by simp
next
  case (Cons r rest)
  obtain h info where r: "r = (h, info)" by (cases r)
  note C = Cons.prems(1)
  note c = copyingD[OF C]
  from Cons.prems(2) r have rok: "root_ok s objs (h, info)"
    and rin: "(h, info) \<in> set (OnStackGCPtrs s)" and hh: "Handles t h = Handles s h" by auto
  from rok obtain a where a: "Handles s h = Some a" "a \<in> set objs" "Info (Headers s a) = Some info"
    by (auto simp: root_ok_def split: option.splits)
  from a(2) W have oka: "object_ok s objs a" by auto
  note oa = object_okD[OF oka]
  have refs: "referents s (r # rest) = a # referents s rest"
    using a(1) by (simp add: r referents_Cons)
  have "\<exists>t0 v. Evacuate (Suc n) t info (Some a) = Inr (t0, v)"
  proof (cases "Forwardee (Headers s a) = Some a")
    case True
    from copying_unpinned[OF C True] have nl: "a \<notin> set L" .
    from c(12)[OF oa(1) nl] True have "Forwardee (Headers t a) = Some a" by simp
    then show ?thesis by (simp add: Evacuate_def)
  next
    case False
    with oa(2) have un: "Forwardee (Headers s a) = None" by simp
    from Cons.prems(5) have nl: "a \<notin> set L" unfolding refs by auto
    from copying_Evacuate_succeeds[OF sp W dist bound C a(2) nl un a(3)] show ?thesis .
  qed
  then obtain t0 v where ev: "Evacuate (Suc n) t info (Some a) = Inr (t0, v)" by blast
  define t1 where "t1 = t0\<lparr>Handles := (Handles t0)(h := v)\<rparr>"
  have 1: "GCInfo_Evacuate (Suc n) info h t = Inr t1"
    using ev hh a(1) by (simp add: GCInfo_Evacuate_def t1_def)
  have one: "EvacuateRoots (Suc n) t [r] = Inr t1" using 1 by (simp add: r)
  have pr1: "\<forall>x\<in>set [r]. root_ok s objs x \<and> x \<in> set (OnStackGCPtrs s) \<and>
                     Handles t (fst x) = Handles s (fst x)" using Cons.prems(2) by simp
  have d1: "distinct (map fst [r])" by simp
  have dr1: "distinct (filter (\<lambda>a. \<not> is_pinned s a) (referents s [r]))"
    using a(1) by (simp add: r referents_Cons referents_def)
  have dj1: "set L \<inter> set (referents s [r]) = {}"
    using Cons.prems(5) a(1) unfolding refs by (simp add: r referents_Cons referents_def)
  from copying_EvacuateRoots[OF sp W C pr1 d1 dr1 dj1 one] obtain L1 where
    C1: "copying s objs t1 (L @ L1) {}"
    and O1: "\<forall>g. g \<notin> fst ` set [r] \<longrightarrow> Handles t1 g = Handles t g"
    and L1: "set L1 \<subseteq> {a \<in> set (referents s [r]). \<not> is_pinned s a}" by blast
  have r1: "referents s [r] = [a]" using a(1) by (simp add: r referents_Cons referents_def)
  have hrest: "h \<notin> fst ` set rest" using Cons.prems(3) r by auto
  have d: "distinct (map fst rest)" using Cons.prems(3) by simp
  have dr: "distinct (filter (\<lambda>a. \<not> is_pinned s a) (referents s rest))"
    using Cons.prems(4) unfolding refs by (simp split: if_splits)
  have pr: "\<forall>x\<in>set rest. root_ok s objs x \<and> x \<in> set (OnStackGCPtrs s) \<and>
                     Handles t1 (fst x) = Handles s (fst x)"
  proof
    fix x assume x: "x \<in> set rest"
    with hrest have "fst x \<notin> fst ` set [r]" by (auto simp: r)
    with Cons.prems(2) x O1 show "root_ok s objs x \<and> x \<in> set (OnStackGCPtrs s) \<and>
                     Handles t1 (fst x) = Handles s (fst x)" by simp
  qed
  have dj: "set (L @ L1) \<inter> set (referents s rest) = {}"
  proof -
    have "x \<notin> set (referents s rest)" if "x \<in> set L1" for x
    proof -
      from that L1 r1 have "x = a" "\<not> is_pinned s a" by auto
      with Cons.prems(4) show ?thesis unfolding refs by auto
    qed
    with Cons.prems(5) show ?thesis unfolding refs by auto
  qed
  from Cons.IH[OF C1 pr d dr dj] obtain t' where "EvacuateRoots (Suc n) t1 rest = Inr t'" by blast
  with 1 show ?case by (simp add: r)
qed

lemma FinalizeLoop_returns:
  "laid_out t scanPtr infos \<Longrightarrow> \<forall>i\<in>set infos. 0 < Size i \<Longrightarrow> r \<le> scanPtr \<Longrightarrow>
   Headers t (scanPtr + sum_list (map Size infos)) = NullHeader \<or>
     \<not> diff64 (scanPtr + sum_list (map Size infos)) (From t) < diff64 SemiSize HeaderSize \<Longrightarrow>
   length infos < n \<Longrightarrow> \<exists>t' r'. FinalizeLoop n t scanPtr r = Inr (t', r')"
proof (induction infos arbitrary: t scanPtr r n)
  case Nil
  then obtain m where n: "n = Suc m" by (cases n) auto
  from Nil(4) show ?case unfolding n by (auto simp: NullHeader_def Let_def)
next
  case (Cons i rest)
  from Cons.prems(5) obtain m where n: "n = Suc m" and m: "length rest < m" by (cases n) auto
  from Cons.prems(1) have inf: "Info (Headers t scanPtr) = Some i"
    and lo: "laid_out t (scanPtr + Size i) rest" by simp_all
  from Cons.prems(2) have pos: "0 < Size i" and posr: "\<forall>i\<in>set rest. 0 < Size i" by simp_all
  let ?e = "scanPtr + Size i + sum_list (map Size rest)"
  have e: "scanPtr + sum_list (map Size (i # rest)) = ?e" by simp
  note fin = Cons.prems(4)[unfolded e]
  have rec: "\<exists>t' r'. FinalizeLoop m t1 (scanPtr + Size i) r1 = Inr (t', r')"
    if "From t1 = From t" "r1 \<le> scanPtr + Size i"
       "\<And>x. scanPtr < x \<Longrightarrow> Headers t1 x = Headers t x" for t1 r1
  proof (rule Cons.IH[OF _ posr that(2) _ m])
    show "laid_out t1 (scanPtr + Size i) rest"
      by (rule laid_out_cong[OF lo posr]) (use that(3) pos in auto)
    have "Headers t1 ?e = Headers t ?e" using that(3)[of ?e] pos by simp
    with fin that(1)
    show "Headers t1 ?e = NullHeader \<or> \<not> diff64 ?e (From t1) < diff64 SemiSize HeaderSize"
      by simp
  qed
  show ?case
  proof (cases "diff64 scanPtr (From t) < diff64 SemiSize HeaderSize")
    case False
    then show ?thesis unfolding n by simp
  next
    case True
    note b = this
    show ?thesis
    proof (cases "Forwardee (Headers t scanPtr) = None \<and> HasFinalize i")
      case True
      have "\<exists>t' r'. FinalizeLoop m (t\<lparr>Finalized := Finalized t @ [scanPtr]\<rparr>) (scanPtr + Size i) r
              = Inr (t', r')"
        by (rule rec) (use Cons.prems(3) in simp_all)
      then show ?thesis unfolding n FinalizeLoop_finalize[OF b inf True] .
    next
      case False
      note nofin = this
      show ?thesis
      proof (cases "Forwardee (Headers t scanPtr) = Some scanPtr")
        case False
        have "\<exists>t' r'. FinalizeLoop m t (scanPtr + Size i) r = Inr (t', r')"
          by (rule rec) (use Cons.prems(3) in simp_all)
        then show ?thesis unfolding n FinalizeLoop_other[OF b inf nofin False] .
      next
        case True
        have "\<exists>t' r'. FinalizeLoop m
                (if r \<noteq> scanPtr
                 then write_header t r \<lparr>Info = None, Forwardee = Some scanPtr\<rparr> else t)
                (scanPtr + Size i) (scanPtr + Size i) = Inr (t', r')"
          by (rule rec) (use Cons.prems(3) in \<open>auto simp: write_header_def\<close>)
        then show ?thesis unfolding n FinalizeLoop_pinned[OF b inf True] .
      qed
    qed
  qed
qed

lemma addrs_ge: "x \<in> set (addrs a infos) \<Longrightarrow> a \<le> x"
proof (induction infos arbitrary: a)
  case Nil
  then show ?case by simp
next
  case (Cons i rest)
  show ?case
  proof (cases "x = a")
    case True
    then show ?thesis by simp
  next
    case False
    with Cons.prems have "x \<in> set (addrs (a + Size i) rest)" by simp
    from Cons.IH[OF this] show ?thesis by simp
  qed
qed

lemma addrs_distinct:
  "\<forall>i\<in>set infos. 0 < Size i \<Longrightarrow> distinct (addrs a infos)"
proof (induction infos arbitrary: a)
  case Nil
  then show ?case by simp
next
  case (Cons i rest)
  then have "0 < Size i" by simp
  with addrs_ge[of a "a + Size i" rest] have "a \<notin> set (addrs (a + Size i) rest)" by auto
  with Cons show ?case by simp
qed

lemma addrs_sizes:
  "laid_out s a infos \<Longrightarrow> map (size_at s) (addrs a infos) = map Size infos"
  by (induction infos arbitrary: a) (auto simp: size_at_def)

lemma addrs_infos:
  "laid_out s a infos \<Longrightarrow> i \<in> set infos \<Longrightarrow> \<exists>x\<in>set (addrs a infos). Info (Headers s x) = Some i"
  by (induction infos arbitrary: a) auto

lemma addrs_length [simp]: "length (addrs a infos) = length infos"
  by (induction infos arbitrary: a) auto

lemma Collect_returns:
  assumes col: "collectable s objs" and con: "contiguous s objs infos"
    and fuel: "length objs < fuel"
  shows "\<exists>s'. Collect fuel s = Inr s'"
proof -
  note w = collectableD[OF col]
  from con have objs: "objs = addrs (From s) infos" and lo: "laid_out s (From s) infos"
    and ap: "AllocPtr s = From s + sum_list (map Size infos)"
    and le: "AllocPtr s \<le> From s + SemiSize"
    and nul: "Headers s (AllocPtr s) = NullHeader \<or> From s + 496 \<le> AllocPtr s"
    unfolding contiguous_def by blast+
  have pos: "\<forall>i\<in>set infos. 0 < Size i"
  proof
    fix i assume "i \<in> set infos"
    from addrs_infos[OF lo this] objs obtain x where x: "x \<in> set objs" "Info (Headers s x) = Some i"
      by auto
    with w(3) have "object_ok s objs x" by auto
    from object_okD(3)[OF this] x(2) show "0 < Size i" by auto
  qed
  have dist: "distinct objs" unfolding objs by (rule addrs_distinct[OF pos])
  have bound: "sum_list (map (size_at s) objs) \<le> SemiSize"
    unfolding objs addrs_sizes[OF lo] using ap le by simp
  from fuel obtain n where n: "fuel = Suc n" by (cases fuel) auto
  let ?s0 = "s\<lparr>AllocPtr := To s\<rparr>"
  have C0: "copying s objs ?s0 [] {}" by (rule copying_start[OF w(2)])
  have pr: "\<forall>r\<in>set (OnStackGCPtrs s). root_ok s objs r \<and> r \<in> set (OnStackGCPtrs s) \<and>
              Handles ?s0 (fst r) = Handles s (fst r)" using w(4) by simp
  from copying_EvacuateRoots_succeeds[OF w(1,3) dist bound C0 pr w(5,6), of n]
  obtain s1 where 1: "EvacuateRoots fuel ?s0 (OnStackGCPtrs s) = Inr s1" unfolding n by auto
  from copying_EvacuateRoots[OF w(1,3) C0 pr w(5,6) _ 1] obtain L1 where
    C1: "copying s objs s1 L1 {}" by auto
  have C1z: "copying s objs s1 L1 (scanned s (take 0 L1))" using C1 by simp
  have "\<exists>t'. ScanLoop fuel s1 (To s + sum_list (map (size_at s) (take 0 L1))) = Inr t'"
    by (rule copying_ScanLoop_succeeds[OF w(1,3) dist bound C1z]) (use fuel in simp_all)
  then obtain s2 where 2: "ScanLoop fuel s1 (To s) = Inr s2" by auto
  then have two: "ScanLoop fuel s1 (To s + sum_list (map (size_at s) (take 0 L1))) = Inr s2"
    by simp
  from copying_ScanLoop[OF w(1,3) C1z _ two] obtain L2 where
    C2: "copying s objs s2 (L1 @ L2) (scanned s (L1 @ L2))" by auto
  note c = copyingD[OF C2]
  have f512: "From s \<le> 512" using w(1) by (auto simp: spaces_ok_def SemiSize_def HeapSize_def)
  have inf2: "Info (Headers s2 x) = Info (Headers s x)" if "InFrom s x" for x
    using c(11)[OF that] c(12)[OF that] by (cases "x \<in> set (L1 @ L2)") simp_all
  have lo2: "laid_out s2 (From s2) infos" unfolding c(1)
  proof (rule laid_out_cong[OF lo pos], intro allI impI)
    fix x assume "From s \<le> x \<and> x < From s + sum_list (map Size infos)"
    with ap le have "InFrom s x" by (simp add: InFrom_def)
    then show "Info (Headers s2 x) = Info (Headers s x)" by (rule inf2)
  qed
  have end2: "Headers s2 (From s2 + sum_list (map Size infos)) = NullHeader \<or>
              \<not> diff64 (From s2 + sum_list (map Size infos)) (From s2) < diff64 SemiSize HeaderSize"
  proof (cases "From s + 496 \<le> AllocPtr s")
    case True
    then have "\<not> diff64 (AllocPtr s) (From s) < diff64 SemiSize HeaderSize"
      by (simp add: diff64_def SemiSize_def HeapSize_def HeaderSize_def)
    then show ?thesis by (simp add: c(1) ap)
  next
    case False
    with nul have z: "Headers s (AllocPtr s) = NullHeader" by simp
    from False ap have inf: "InFrom s (AllocPtr s)"
      by (simp add: InFrom_def SemiSize_def HeapSize_def)
    have "AllocPtr s \<notin> set (L1 @ L2)"
    proof
      assume "AllocPtr s \<in> set (L1 @ L2)"
      with c(5) w(3) have "object_ok s objs (AllocPtr s)" by auto
      from object_okD(3)[OF this] z show False by (auto simp: NullHeader_def)
    qed
    from c(12)[OF inf this] z show ?thesis by (simp add: c(1) ap)
  qed
  have "length infos < fuel" using fuel by (simp add: objs)
  from FinalizeLoop_returns[OF lo2 pos _ end2 this, of "From s2"]
  obtain s3 r where 3: "FinalizeLoop fuel s2 (From s2) (From s2) = Inr (s3, r)" by auto
  from 1 2 3 show ?thesis by (simp add: Collect_def Let_def)
qed

section \<open>The claims\<close>

text \<open>
  C10. Claim: \<^verbatim>\<open>Collect\<close> never fails when every registered handle is null or points to a
  live object in the from-space; in particular root evacuation is safe for a null root.
  In the code, the thunk \<^verbatim>\<open>GCInfo::Evacuate\<close> passes the handle's value to
  \<^verbatim>\<open>Heap::Evacuate\<close>, which reads \<^verbatim>\<open>header->Forwardee\<close> without a null test (the test
  that \<^verbatim>\<open>ProcessReference\<close> has). With one registered handle holding \<^verbatim>\<open>nullptr\<close>, as
  \<^verbatim>\<open>GCPtr<A> p;\<close> on the stack gives, the collection dereferences null, whatever the fuel.
\<close>

theorem Collect_null_root_dereferences_null:
  "Collect fuel (GCPtr_ctor Heap_init 0 A_info None) = Inl NullDeref"
  by (simp add: Collect_def GCPtr_ctor_def Heap_init_def GCInfo_Evacuate_def Evacuate_def)

text \<open>
  C2. Claim: the thunk \<^verbatim>\<open>Evacuate\<close> does not copy a referent that was already evacuated
  in this collection, so two roots of one object end up at one copy. In the code
  \<^verbatim>\<open>Heap::Evacuate\<close> only tests for a pinned referent; a forwarded one is copied again.
  Before the collection both handles hold address 0; after it they hold the two
  different copies 512 and 544. In between: when the thunk has run on handle 0, the old
  header is forwarded to 512 and the cursor is 544; the thunk on handle 1 then advances
  the cursor to 576, a second copy.
\<close>

theorem Evacuate_thunk_copies_forwarded_referent_again:
  "handle_values (run 20 two_roots Heap_init) [0, 1] = [Some 0, Some 0] \<and>
   outcome (run 20 (two_roots @ [OpCollect]) Heap_init) = None \<and>
   handle_values (run 20 (two_roots @ [OpCollect]) Heap_init) [0, 1] = [Some 512, Some 544] \<and>
   Forwardee (Headers (final (after_first_root 20 (final (run 20 two_roots Heap_init)))) 0)
     = Some 512 \<and>
   AllocPtr (final (after_first_root 20 (final (run 20 two_roots Heap_init)))) = 544 \<and>
   outcome (with_heap (final (after_first_root 20 (final (run 20 two_roots Heap_init))))
     (GCInfo_Evacuate 20 A_info 1
        (final (after_first_root 20 (final (run 20 two_roots Heap_init)))))) = None \<and>
   AllocPtr (final (with_heap (final (after_first_root 20 (final (run 20 two_roots Heap_init))))
     (GCInfo_Evacuate 20 A_info 1
        (final (after_first_root 20 (final (run 20 two_roots Heap_init))))))) = 576"
  by code_simp

text \<open>
  C3. Claim: the pointer of an object that is pinned before a \<^verbatim>\<open>Collect\<close> is the same
  after it, in every handle. After \<open>adjacent_pins\<close> the object of handle 2 is pinned at
  address 64, in the to-space, directly behind the pinned object at 32. In the next
  collection \<^verbatim>\<open>AdjustAllocPtr\<close> steps over the object at 32, lands on the header at 64,
  which is not a skip record, and the first root is evacuated onto it; handle 2 then
  sees an unpinned header and is moved to 96.
\<close>

theorem pinned_object_moved_by_Collect:
  "outcome (run 20 adjacent_pins Heap_init) = None \<and>
   is_pinned (final (run 20 adjacent_pins Heap_init)) 64 \<and>
   handle_values (run 20 adjacent_pins Heap_init) [2] = [Some 64] \<and>
   outcome (run 20 (adjacent_pins @ [OpCollect]) Heap_init) = None \<and>
   handle_values (run 20 (adjacent_pins @ [OpCollect]) Heap_init) [2] = [Some 96]"
  by code_simp

text \<open>
  C5. Claim: no object is finalized twice, over any sequence of operations and the
  teardown. In \<open>pin_at_base\<close> the temporaries at 32 and 64 are finalized by the first
  collection. The pinned object at the base of what is now the to-space has no skip
  record before it, so the second collection evacuates onto it and leaves a copy of its
  header at 32 as the preamble; the walk of the teardown then passes 32 and reaches the
  dead object at 64 again. No allocation or evacuation has written at 64 in between.
\<close>

theorem finalizer_runs_twice:
  "Finalized (final (run 20 pin_at_base Heap_init)) = [32, 64] \<and>
   outcome (run 20 (pin_at_base_again @ [OpDrop, OpDrop, OpTeardown]) Heap_init) = None \<and>
   Finalized (final (run 20 (pin_at_base_again @ [OpDrop, OpDrop, OpTeardown]) Heap_init))
     = [32, 64, 0, 64]"
  by code_simp

text \<open>
  C6. Claim: the finalizer of every object with one runs exactly once, also for an object
  still pinned at teardown. \<^verbatim>\<open>FinalizeAll\<close> finalizes only headers whose \<^verbatim>\<open>Forwardee\<close> is
  null, and a pinned header has \<^verbatim>\<open>Forwardee\<close> equal to itself: the pinned object is never
  finalized, while the same program without the pin finalizes it.
\<close>

theorem pinned_object_not_finalized_at_teardown:
  "outcome (run 20 [new_A 0, OpPin 0, OpDrop, OpTeardown] Heap_init) = None \<and>
   Finalized (final (run 20 [new_A 0, OpPin 0, OpDrop, OpTeardown] Heap_init)) = [] \<and>
   Finalized (final (run 20 [new_A 0, OpDrop, OpTeardown] Heap_init)) = [0]"
  by code_simp

text \<open>
  C8. Claim: when the payload constructor throws, \<^verbatim>\<open>Allocate\<close> restores \<^verbatim>\<open>AllocPtr\<close> and
  the preamble, so the heap is unchanged and consistent. \<^verbatim>\<open>oldAllocPtr\<close> is taken before
  \<^verbatim>\<open>AdjustAllocPtr\<close>, the preamble after it. After \<open>island\<close> the cursor is 64, on a skip
  record for the pinned object at 96. The failing \<^verbatim>\<open>Allocate\<close> steps over the pinned
  object to 128 and reads the null preamble there; the rollback returns to 64 and the
  guard writes that null preamble over the skip record. The cursor is restored, the
  heap is not: the next allocation lands at 64 and writes its preamble over the header
  of the pinned object.
\<close>

theorem failed_Allocate_erases_skip_record:
  "outcome (run 20 island Heap_init) = None \<and>
   AllocPtr (final (run 20 island Heap_init)) = 64 \<and>
   Headers (final (run 20 island Heap_init)) 64 = \<lparr>Info = None, Forwardee = Some 96\<rparr> \<and>
   is_pinned (final (run 20 island Heap_init)) 96 \<and>
   outcome (run 20 (island @ [OpAllocate A_info None 3]) Heap_init) = Some CtorThrew \<and>
   AllocPtr (final (run 20 (island @ [OpAllocate A_info None 3]) Heap_init)) = 64 \<and>
   Headers (final (run 20 (island @ [OpAllocate A_info None 3]) Heap_init)) 64 = NullHeader \<and>
   outcome (run 20 [new_A 3] (final (run 20 (island @ [OpAllocate A_info None 3]) Heap_init)))
     = None \<and>
   Headers (final (run 20 [new_A 3]
              (final (run 20 (island @ [OpAllocate A_info None 3]) Heap_init)))) 96 = NullHeader"
  by code_simp

text \<open>
  C9. Claim: at all times, also at every intermediate step, \<^verbatim>\<open>AllocPtr\<close> lies in
  \<open>[FROM, FROM + SemispaceSize)\<close>, strictly inside the from-space. The bound is not
  strict: \<^verbatim>\<open>AdjustAllocPtr\<close> admits an allocation that ends exactly at the end of the space,
  and after sixteen objects of 32 bytes the cursor is \<open>FROM + SemispaceSize\<close>.
\<close>

theorem cursor_reaches_end_of_from_space:
  "outcome (run 20 full_space Heap_init) = None \<and>
   \<not> AllocPtr (final (run 20 full_space Heap_init))
       < From (final (run 20 full_space Heap_init)) + SemiSize"
  by code_simp

text \<open>
  An \<^verbatim>\<open>Allocate\<close> that collects is left out of the amended claim below. The test after
  \<^verbatim>\<open>Collect()\<close> in \<^verbatim>\<open>AdjustAllocPtr\<close> measures the new cursor from the base of the old
  from-space: with the space full and one live object, the allocation throws
  \<^verbatim>\<open>bad_alloc\<close> although the collection has left 32 bytes in use; with the upper half full
  of sixteen live objects, the cursor after the collection equals the stale base, the
  test passes, and the object is placed in the to-space, 544 bytes above the new base.
\<close>

lemma Allocate_that_collects:
  "outcome (run 40 (full_one_live @ [new_A 16]) Heap_init) = Some BadAlloc \<and>
   Used (final (run 40 (full_one_live @ [new_A 16]) Heap_init)) = 32 \<and>
   outcome (run 40 (OpCollect # full_space @ [new_A 16]) Heap_init) = None \<and>
   From (final (run 40 (OpCollect # full_space @ [new_A 16]) Heap_init)) = 0 \<and>
   AllocPtr (final (run 40 (OpCollect # full_space @ [new_A 16]) Heap_init)) = 544"
  by code_simp

text \<open>
  C9, as amended: in every state that a program reaches from the initial heap by
  operations that return normally (collections, pins, unpins, handle construction and
  destruction, member assignment, and allocations that find room without collecting),
  with descriptors of at least the header size and at most the semispace size,
  \<open>FROM \<le> AllocPtr \<le> FROM + SemispaceSize\<close>. Inside \<^verbatim>\<open>Collect\<close> the cursor runs through
  the to-space until the swap (\<open>to_cursor\<close> in \<open>Collect_heap_ok\<close>). The state left by an
  \<^verbatim>\<open>Allocate\<close> that collects or whose constructor throws is not covered.
\<close>

theorem cursor_within_from_space:
  assumes "list_all op_ok ops" "quiet fuel ops Heap_init"
    "outcome (run fuel ops Heap_init) = None"
  shows "From (final (run fuel ops Heap_init)) \<le> AllocPtr (final (run fuel ops Heap_init)) \<and>
         AllocPtr (final (run fuel ops Heap_init))
           \<le> From (final (run fuel ops Heap_init)) + SemiSize"
proof -
  from assms(3) obtain s where r: "run fuel ops Heap_init = Inr s"
    by (cases "run fuel ops Heap_init") (auto simp: outcome_def)
  from run_inv[OF inv_Heap_init assms(1,2) r] show ?thesis
    by (simp add: r final_def inv_def cursor_ok_def)
qed

theorem cursor_within_from_space_witness:
  "list_all op_ok (adjacent_pins @ [OpCollect]) \<and>
   quiet 20 (adjacent_pins @ [OpCollect]) Heap_init \<and>
   outcome (run 20 (adjacent_pins @ [OpCollect]) Heap_init) = None \<and>
   From (final (run 20 (adjacent_pins @ [OpCollect]) Heap_init))
     \<le> AllocPtr (final (run 20 (adjacent_pins @ [OpCollect]) Heap_init)) \<and>
   AllocPtr (final (run 20 (adjacent_pins @ [OpCollect]) Heap_init))
     \<le> From (final (run 20 (adjacent_pins @ [OpCollect]) Heap_init)) + SemiSize"
proof -
  have 1: "list_all op_ok (adjacent_pins @ [OpCollect])" by code_simp
  have 2: "quiet 20 (adjacent_pins @ [OpCollect]) Heap_init" by code_simp
  have 3: "outcome (run 20 (adjacent_pins @ [OpCollect]) Heap_init) = None" by code_simp
  from cursor_within_from_space[OF 1 2 3] 1 2 3 show ?thesis by simp
qed

text \<open>
  C1. Claim: after \<^verbatim>\<open>Collect\<close> the from-space holds exactly the objects reachable from the
  roots and the objects pinned in the old from-space, which stay at their addresses, these
  addresses belonging to the new from-space (\<^verbatim>\<open>InFrom(o)\<close> holds). The spaces are two fixed
  halves of \<^verbatim>\<open>Space\<close> and \<^verbatim>\<open>Collect\<close> swaps their roles: a pinned object stays in the half
  that was the from-space, which is the to-space afterwards, as \<^verbatim>\<open>main\<close> asserts
  (\<^verbatim>\<open>assert(!heap.InFrom(pinnedRawPtr))\<close>).
\<close>

theorem pinned_object_not_in_from_space_after_Collect:
  "outcome (run 20 [new_A 0, OpPin 0, OpCollect] Heap_init) = None \<and>
   handle_values (run 20 [new_A 0, OpPin 0, OpCollect] Heap_init) [0] = [Some 0] \<and>
   is_pinned (final (run 20 [new_A 0, OpPin 0, OpCollect] Heap_init)) 0 \<and>
   \<not> InFrom (final (run 20 [new_A 0, OpPin 0, OpCollect] Heap_init)) 0"
  by code_simp

text \<open>
  A pinned object of the from-space is never passed to \<^verbatim>\<open>VisitPointer\<close>: the scan loop
  walks the to-space only (where it does visit a pinned object that it meets). What is
  reachable through a pinned object alone is not copied and is finalized, and the pinned
  object keeps the reference: after \<open>pinned_referrer\<close> the object at 32 is reachable
  through the pinned object at 0; the collection finalizes it and writes the null header
  over its header, and the member of the pinned object still holds 32. The amended claim
  below leaves this case out.
\<close>

lemma members_of_pinned_object_not_traced:
  "outcome (run 20 pinned_referrer Heap_init) = None \<and>
   is_pinned (final (run 20 pinned_referrer Heap_init)) 0 \<and>
   reachable 20 (final (run 20 pinned_referrer Heap_init))
     (root_values (final (run 20 pinned_referrer Heap_init))) [] = [32, 0] \<and>
   outcome (run 20 (pinned_referrer @ [OpCollect]) Heap_init) = None \<and>
   Finalized (final (run 20 (pinned_referrer @ [OpCollect]) Heap_init)) = [32] \<and>
   Headers (final (run 20 (pinned_referrer @ [OpCollect]) Heap_init)) 32 = NullHeader \<and>
   Payloads (final (run 20 (pinned_referrer @ [OpCollect]) Heap_init)) 0 0 = Some 32 \<and>
   Used (final (run 20 (pinned_referrer @ [OpCollect]) Heap_init)) = 0"
  by code_simp

text \<open>
  C1, as amended, in three parts. (1) In every heap whose descriptors are at least a
  header and at most a semispace in size, an object that is pinned in the old from-space
  is, after \<^verbatim>\<open>Collect\<close> returns, at its address with its header unchanged, and this
  address belongs to the space that is now the to-space: \<^verbatim>\<open>InFrom\<close> is false for it.
  (2) Let the heap be \<open>collectable\<close>: there are objects \<open>objs\<close> of the from-space with
  descriptors larger than a header, every member of them is null or refers to one of
  them, every registered handle refers to one of them, of its type, no two handles refer
  to the same unpinned object, a pinned object refers to pinned objects only, and the
  null header is at the base of the to-space (no object pinned in an earlier cycle is
  left there). Then, after \<^verbatim>\<open>Collect\<close> returns, the used part of the new from-space, from
  its base to \<^verbatim>\<open>AllocPtr\<close>, consists exactly of one copy of each unpinned object that was
  reachable from the root set at the start: \<open>L\<close> lists these objects in the order of
  copying, the copy of an object lies behind the copies of the objects before it in \<open>L\<close>
  (\<open>copy_of\<close>), every address between the base and the cursor lies in one of the copies,
  every copy has the descriptor of its original, a null \<^verbatim>\<open>Forwardee\<close>, and the members of
  its original, redirected to the copies; the handles are redirected in the same way,
  and a reference to a pinned object is left as it is. (3) \<^verbatim>\<open>Collect\<close> does return on a
  \<open>collectable\<close> heap whose from-space holds the objects \<open>objs\<close> back to back from its
  base, when the fuel of the loops exceeds their number.

  With an object of an earlier cycle left pinned in the to-space, the new from-space
  holds that object as well, as the comments of \<^verbatim>\<open>main\<close> on its third collection say;
  the scan loop visits it, and copies what it refers to, only when the cursor has stepped
  over it. This case is not covered by (2).
\<close>

theorem Collect_copies_reachable_pinned_stay:
  "(heap_ok s \<and> Collect fuel s = Inr s' \<and> InFrom s a \<and> is_pinned s a \<longrightarrow>
      Headers s' a = Headers s a \<and> \<not> InFrom s' a \<and> To s' \<le> a \<and> a < To s' + SemiSize) \<and>
   (collectable s objs \<and> Collect fuel s = Inr s' \<longrightarrow>
      (\<exists>L. distinct L \<and> set L = {a \<in> reach s. \<not> is_pinned s a} \<and>
           From s' = To s \<and> To s' = From s \<and>
           AllocPtr s' = From s' + sum_list (map (size_at s) L) \<and>
           (\<forall>x. From s' \<le> x \<and> x < AllocPtr s' \<longrightarrow>
              (\<exists>a\<in>set L. copy_of s (From s') L a \<le> x \<and>
                         x < copy_of s (From s') L a + size_at s a)) \<and>
           (\<forall>a\<in>set L.
              InFrom s' (copy_of s (From s') L a) \<and>
              Headers s' (copy_of s (From s') L a)
                = \<lparr>Info = Info (Headers s a), Forwardee = None\<rparr> \<and>
              (\<forall>k<num_ptrs_at s a.
                 Payloads s' (copy_of s (From s') L a) k
                   = map_option (copy_of s (From s') L) (Payloads s a k))) \<and>
           (\<forall>r\<in>set (OnStackGCPtrs s).
              Handles s' (fst r) = map_option (copy_of s (From s') L) (Handles s (fst r))) \<and>
           (\<forall>a. InFrom s a \<and> is_pinned s a \<longrightarrow>
              Headers s' a = Headers s a \<and> \<not> InFrom s' a \<and> copy_of s (From s') L a = a))) \<and>
   (collectable s objs \<and> contiguous s objs infos \<and> length objs < fuel \<longrightarrow>
      (\<exists>s'. Collect fuel s = Inr s'))"
  (is "(?H1 \<longrightarrow> ?C1) \<and> (?H2 \<longrightarrow> ?C2) \<and> (?H3 \<longrightarrow> ?C3)")
proof -
  have 1: "?H1 \<longrightarrow> ?C1"
  proof
    assume h: ?H1
    then have sp: "spaces_ok s" and pin: "Forwardee (Headers s a) = Some a"
      by (simp_all add: heap_ok_def is_pinned_def)
    from h Collect_keeps_pinned[OF _ _ pin, of fuel s']
    have "Headers s' a = Headers s a" "From s' = To s" "To s' = From s" by simp_all
    with h sp show ?C1
      by (auto simp: InFrom_def spaces_ok_def SemiSize_def HeapSize_def)
  qed
  have 2: "?H2 \<longrightarrow> ?C2"
  proof
    assume ?H2
    then show ?C2 by (elim conjE) (rule Collect_copies_new_from_space)
  qed
  have 3: "?H3 \<longrightarrow> ?C3"
  proof
    assume ?H3
    then show ?C3 by (elim conjE) (rule Collect_returns)
  qed
  show ?thesis by (rule conjI[OF 1 conjI[OF 2 3]])
qed

theorem Collect_copies_reachable_pinned_stay_witness:
  "heap_ok (final (run 20 like_main Heap_init)) \<and>
   collectable (final (run 20 like_main Heap_init)) [0, 32, 64, 96, 128, 160] \<and>
   contiguous (final (run 20 like_main Heap_init)) [0, 32, 64, 96, 128, 160]
     (replicate 6 A_info) \<and>
   InFrom (final (run 20 like_main Heap_init)) 160 \<and>
   is_pinned (final (run 20 like_main Heap_init)) 160 \<and>
   (\<exists>s' L. Collect 20 (final (run 20 like_main Heap_init)) = Inr s' \<and>
      distinct L \<and>
      set L = {a \<in> reach (final (run 20 like_main Heap_init)).
                 \<not> is_pinned (final (run 20 like_main Heap_init)) a} \<and>
      AllocPtr s' = From s' + sum_list (map (size_at (final (run 20 like_main Heap_init))) L) \<and>
      From s' = 512 \<and> AllocPtr s' = 576 \<and> Handles s' 0 = Some 512 \<and>
      Payloads s' 512 0 = Some 544 \<and>
      Headers s' 160 = Headers (final (run 20 like_main Heap_init)) 160 \<and>
      \<not> InFrom s' 160)"
proof -
  define s where "s = final (run 20 like_main Heap_init)"
  have ops: "list_all op_ok like_main" by code_simp
  have out: "outcome (run 20 like_main Heap_init) = None" by code_simp
  have 0: "heap_ok s" unfolding s_def by (rule heap_ok_run_init[OF ops out])
  have 1: "collectable s [0, 32, 64, 96, 128, 160]" unfolding s_def by code_simp
  have 2: "contiguous s [0, 32, 64, 96, 128, 160] (replicate 6 A_info)"
    unfolding s_def by code_simp
  have 3: "InFrom s 160" "is_pinned s 160" unfolding s_def by code_simp+
  have 4: "case Collect 20 s of
             Inl e \<Rightarrow> False
           | Inr s' \<Rightarrow> From s' = 512 \<and> AllocPtr s' = 576 \<and> Handles s' 0 = Some 512 \<and>
                       Payloads s' 512 0 = Some 544"
    unfolding s_def by code_simp
  have 5: "length [0::nat, 32, 64, 96, 128, 160] < 20" by simp
  note t = Collect_copies_reachable_pinned_stay
  from t[THEN conjunct2, THEN conjunct2, of s "[0, 32, 64, 96, 128, 160]" "replicate 6 A_info" 20]
    1 2 5
  obtain s' where c: "Collect 20 s = Inr s'" by blast
  from t[THEN conjunct2, THEN conjunct1, rule_format, OF conjI, OF 1 c]
  obtain L where L: "distinct L" "set L = {a \<in> reach s. \<not> is_pinned s a}"
    "AllocPtr s' = From s' + sum_list (map (size_at s) L)"
    by (elim exE conjE) (rule that, assumption+)
  from t[THEN conjunct1, of s 20 s' 160] 0 c 3
  have 6: "Headers s' 160 = Headers s 160" "\<not> InFrom s' 160" by blast+
  from 4 c have 7: "From s' = 512" "AllocPtr s' = 576" "Handles s' 0 = Some 512"
    "Payloads s' 512 0 = Some 544" by simp_all
  show ?thesis unfolding s_def[symmetric]
    using 0 1 2 3 c L 6 7 by blast
qed

text \<open>
  The four collections of \<^verbatim>\<open>main\<close>: the first, the second (with the pinned object in the
  from-space) and the fourth (with the unpinned object behind a skip record in the
  from-space) start in a \<open>collectable\<close> heap; the third has the skip record of the pinned
  object at the base of the to-space.
\<close>

lemma collections_of_main:
  "collectable (final (run 20 main_first Heap_init)) [0, 32, 64, 96, 128] \<and>
   contiguous (final (run 20 main_first Heap_init)) [0, 32, 64, 96, 128] (replicate 5 A_info) \<and>
   collectable (final (run 20 main_second Heap_init)) [512, 544, 576] \<and>
   contiguous (final (run 20 main_second Heap_init)) [512, 544, 576] (replicate 3 A_info) \<and>
   is_pinned (final (run 20 main_second Heap_init)) 576 \<and>
   Headers (final (run 20 main_third Heap_init)) (To (final (run 20 main_third Heap_init)))
     = \<lparr>Info = None, Forwardee = Some 576\<rparr> \<and>
   collectable (final (run 20 main_fourth Heap_init)) [512, 576, 608, 640] \<and>
   Headers (final (run 20 main_fourth Heap_init)) 544 = \<lparr>Info = None, Forwardee = Some 576\<rparr> \<and>
   outcome (run 20 (main_fourth @ [OpCollect]) Heap_init) = None \<and>
   Used (final (run 20 (main_fourth @ [OpCollect]) Heap_init)) = 128"
  by code_simp

text \<open>
  C4. \<^verbatim>\<open>ProcessReference\<close> on member \<open>i\<close> of the object at \<open>ob\<close>: a null reference leaves
  everything unchanged; a referent in the from-space whose \<^verbatim>\<open>Forwardee\<close> is non-null and
  not itself makes the reference that \<^verbatim>\<open>Forwardee\<close> and changes nothing else; a referent
  in the from-space with a null \<^verbatim>\<open>Forwardee\<close> is evacuated and the reference is the copy,
  whenever the call returns (the cursor has advanced by the size; in a heap with its two
  half spaces and descriptors between a header and a semispace in size, the copy has a
  fresh header in the to-space and the payload of the referent, and the old header is
  forwarded to it); the call does return when there is room at the cursor and no skip
  record there, otherwise \<^verbatim>\<open>Evacuate\<close> throws; a pinned referent leaves the reference at
  the original address and the headers as they are.
\<close>

theorem ProcessReference_cases:
  "(Payloads s ob i = None \<longrightarrow> ProcessReference fuel s ob i = Inr s) \<and>
   (Payloads s ob i = Some a \<and> Info (Headers s a) \<noteq> None \<and> InFrom s a \<and>
    Forwardee (Headers s a) = Some f \<and> f \<noteq> a \<longrightarrow>
      ProcessReference fuel s ob i = Inr (set_ref s ob i (Some f))) \<and>
   (Payloads s ob i = Some a \<and> Info (Headers s a) = Some info \<and> InFrom s a \<and>
    Forwardee (Headers s a) = None \<longrightarrow>
      (\<forall>s'. ProcessReference fuel s ob i = Inr s' \<longrightarrow>
         (\<exists>p. Payloads s' ob i = Some p \<and> AllocPtr s' = p + Size info \<and>
              (heap_ok s \<longrightarrow>
                 p \<noteq> a \<and> To s \<le> p \<and> p < To s + SemiSize \<and>
                 Headers s' a = (Headers s a)\<lparr>Forwardee := Some p\<rparr> \<and>
                 Headers s' p = \<lparr>Info = Some info, Forwardee = None\<rparr> \<and>
                 (\<forall>k. ob \<noteq> p \<or> k \<noteq> i \<longrightarrow> Payloads s' p k = Payloads s a k)))) \<and>
      (fuel \<noteq> 0 \<and> \<not> no_room SpaceTo s (Size info) \<and>
       (Info (Headers s (AllocPtr s)) \<noteq> None \<or> Forwardee (Headers s (AllocPtr s)) = None) \<longrightarrow>
         (\<exists>s'. ProcessReference fuel s ob i = Inr s'))) \<and>
   (Payloads s ob i = Some a \<and> Info (Headers s a) \<noteq> None \<and> Forwardee (Headers s a) = Some a \<longrightarrow>
      (\<exists>s'. ProcessReference fuel s ob i = Inr s' \<and> Payloads s' ob i = Some a \<and>
            Headers s' = Headers s \<and> AllocPtr s' = AllocPtr s))"
proof (intro conjI impI)
  assume "Payloads s ob i = None"
  then show "ProcessReference fuel s ob i = Inr s" by (simp add: ProcessReference_def)
next
  assume "Payloads s ob i = Some a \<and> Info (Headers s a) \<noteq> None \<and> InFrom s a \<and>
    Forwardee (Headers s a) = Some f \<and> f \<noteq> a"
  then show "ProcessReference fuel s ob i = Inr (set_ref s ob i (Some f))"
    by (auto simp: ProcessReference_def)
next
  assume h: "Payloads s ob i = Some a \<and> Info (Headers s a) = Some info \<and> InFrom s a \<and>
    Forwardee (Headers s a) = None"
  show "\<forall>s'. ProcessReference fuel s ob i = Inr s' \<longrightarrow>
         (\<exists>p. Payloads s' ob i = Some p \<and> AllocPtr s' = p + Size info \<and>
              (heap_ok s \<longrightarrow>
                 p \<noteq> a \<and> To s \<le> p \<and> p < To s + SemiSize \<and>
                 Headers s' a = (Headers s a)\<lparr>Forwardee := Some p\<rparr> \<and>
                 Headers s' p = \<lparr>Info = Some info, Forwardee = None\<rparr> \<and>
                 (\<forall>k. ob \<noteq> p \<or> k \<noteq> i \<longrightarrow> Payloads s' p k = Payloads s a k)))"
  proof (intro allI impI)
    fix s' assume r: "ProcessReference fuel s ob i = Inr s'"
    with h obtain s1 v where ev: "Evacuate fuel s info (Some a) = Inr (s1, v)"
      and s': "s' = set_ref s1 ob i v"
      by (auto simp: ProcessReference_def split: sum.splits)
    from Evacuate_Some[OF ev] h obtain p where
      nr: "\<not> no_room SpaceTo (s\<lparr>AllocPtr := p\<rparr>) (Size info)" and v: "v = Some p"
      and s1: "s1 = Evacuate_copy (s\<lparr>AllocPtr := p\<rparr>) info a" by auto
    let ?t = "s\<lparr>AllocPtr := p\<rparr>"
    have 1: "Payloads s' ob i = Some p" by (simp add: s' v set_ref_def)
    have 2: "AllocPtr s' = p + Size info" by (simp add: s' s1)
    have 3: "p \<noteq> a \<and> To s \<le> p \<and> p < To s + SemiSize \<and>
             Headers s' a = (Headers s a)\<lparr>Forwardee := Some p\<rparr> \<and>
             Headers s' p = \<lparr>Info = Some info, Forwardee = None\<rparr> \<and>
             (\<forall>k. ob \<noteq> p \<or> k \<noteq> i \<longrightarrow> Payloads s' p k = Payloads s a k)" if ok: "heap_ok s"
    proof -
      from ok h have sp: "spaces_ok s" and sz: "sz_ok info" by (auto simp: heap_ok_def known_def)
      have spt: "spaces_ok ?t" using sp by (simp add: spaces_ok_def)
      have at: "InFrom ?t a" using h by simp
      note res = Evacuate_copy_result[OF spt sz at nr]
      have "p \<noteq> a" "To s \<le> p" "p < To s + SemiSize" using res(4-6) by simp_all
      moreover have "Headers s' a = (Headers s a)\<lparr>Forwardee := Some p\<rparr>"
        using res(1) by (simp add: s' s1)
      moreover have "Headers s' p = \<lparr>Info = Some info, Forwardee = None\<rparr>"
        using res(2) by (simp add: s' s1)
      moreover have "\<forall>k. ob \<noteq> p \<or> k \<noteq> i \<longrightarrow> Payloads s' p k = Payloads s a k"
        using res(3) by (auto simp: s' s1 set_ref_def)
      ultimately show ?thesis by blast
    qed
    from 1 2 3 show "\<exists>p. Payloads s' ob i = Some p \<and> AllocPtr s' = p + Size info \<and>
              (heap_ok s \<longrightarrow>
                 p \<noteq> a \<and> To s \<le> p \<and> p < To s + SemiSize \<and>
                 Headers s' a = (Headers s a)\<lparr>Forwardee := Some p\<rparr> \<and>
                 Headers s' p = \<lparr>Info = Some info, Forwardee = None\<rparr> \<and>
                 (\<forall>k. ob \<noteq> p \<or> k \<noteq> i \<longrightarrow> Payloads s' p k = Payloads s a k))" by blast
  qed
  assume g: "fuel \<noteq> 0 \<and> \<not> no_room SpaceTo s (Size info) \<and>
       (Info (Headers s (AllocPtr s)) \<noteq> None \<or> Forwardee (Headers s (AllocPtr s)) = None)"
  then obtain n where n: "fuel = Suc n" by (cases fuel) auto
  from h have "Forwardee (Headers s a) \<noteq> Some a" by simp
  from Evacuate_succeeds[OF this, of info n] g h
  show "\<exists>s'. ProcessReference fuel s ob i = Inr s'"
    by (auto simp: ProcessReference_def n)
next
  assume h: "Payloads s ob i = Some a \<and> Info (Headers s a) \<noteq> None \<and> Forwardee (Headers s a) = Some a"
  show "\<exists>s'. ProcessReference fuel s ob i = Inr s' \<and> Payloads s' ob i = Some a \<and>
            Headers s' = Headers s \<and> AllocPtr s' = AllocPtr s"
  proof (cases "InFrom s a")
    case True
    with h have "ProcessReference fuel s ob i = Inr (set_ref s ob i (Some a))"
      by (auto simp: ProcessReference_def)
    then show ?thesis by (simp add: set_ref_def)
  next
    case False
    with h have "ProcessReference fuel s ob i = Inr s" by (auto simp: ProcessReference_def)
    with h show ?thesis by simp
  qed
qed

theorem ProcessReference_cases_witness:
  "Payloads (at_flip (final (run 20 linked Heap_init))) 32 0 = None \<and>
   ProcessReference 20 (at_flip (final (run 20 linked Heap_init))) 32 0
     = Inr (at_flip (final (run 20 linked Heap_init))) \<and>
   Forwardee (Headers (write_header (at_flip (final (run 20 linked Heap_init))) 32
                \<lparr>Info = Some A_info, Forwardee = Some 512\<rparr>) 32) = Some 512 \<and>
   ProcessReference 20
     (write_header (at_flip (final (run 20 linked Heap_init))) 32
        \<lparr>Info = Some A_info, Forwardee = Some 512\<rparr>) 0 0
     = Inr (set_ref (write_header (at_flip (final (run 20 linked Heap_init))) 32
                      \<lparr>Info = Some A_info, Forwardee = Some 512\<rparr>) 0 0 (Some 512)) \<and>
   Payloads (at_flip (final (run 20 linked Heap_init))) 0 0 = Some 32 \<and>
   Forwardee (Headers (at_flip (final (run 20 linked Heap_init))) 32) = None \<and>
   (\<exists>s' p. ProcessReference 20 (at_flip (final (run 20 linked Heap_init))) 0 0 = Inr s' \<and>
          Payloads s' 0 0 = Some p \<and> p \<noteq> 32 \<and>
          Headers s' 32 = (Headers (at_flip (final (run 20 linked Heap_init))) 32)
                            \<lparr>Forwardee := Some p\<rparr> \<and>
          Headers s' p = \<lparr>Info = Some A_info, Forwardee = None\<rparr>) \<and>
   Forwardee (Headers (final (run 20 (linked @ [OpPin 1]) Heap_init)) 32) = Some 32 \<and>
   (\<exists>s'. ProcessReference 20 (final (run 20 (linked @ [OpPin 1]) Heap_init)) 0 0 = Inr s' \<and>
         Payloads s' 0 0 = Some 32)"
proof -
  let ?c = "at_flip (final (run 20 linked Heap_init))"
  let ?f = "write_header ?c 32 \<lparr>Info = Some A_info, Forwardee = Some 512\<rparr>"
  let ?p = "final (run 20 (linked @ [OpPin 1]) Heap_init)"
  have ops: "list_all op_ok linked" by code_simp
  have out: "outcome (run 20 linked Heap_init) = None" by code_simp
  have ok: "heap_ok ?c"
    using heap_ok_run_init[OF ops out] by (simp add: at_flip_def)
  have n: "Payloads ?c 32 0 = None" by code_simp
  have f: "Payloads ?f 0 0 = Some 32 \<and> Info (Headers ?f 32) \<noteq> None \<and> InFrom ?f 32 \<and>
           Forwardee (Headers ?f 32) = Some 512 \<and> (512::nat) \<noteq> 32" by code_simp
  have e: "Payloads ?c 0 0 = Some 32 \<and> Info (Headers ?c 32) = Some A_info \<and> InFrom ?c 32 \<and>
           Forwardee (Headers ?c 32) = None" by code_simp
  have g: "(20::nat) \<noteq> 0 \<and> \<not> no_room SpaceTo ?c (Size A_info) \<and>
           (Info (Headers ?c (AllocPtr ?c)) \<noteq> None \<or> Forwardee (Headers ?c (AllocPtr ?c)) = None)"
    by code_simp
  have p: "Payloads ?p 0 0 = Some 32 \<and> Info (Headers ?p 32) \<noteq> None \<and>
           Forwardee (Headers ?p 32) = Some 32" by code_simp
  from ProcessReference_cases[of ?c 32 0 20] n
  have 1: "ProcessReference 20 ?c 32 0 = Inr ?c" by blast
  from ProcessReference_cases[of ?f 0 0 20 32 512] f
  have 2: "ProcessReference 20 ?f 0 0 = Inr (set_ref ?f 0 0 (Some 512))" by blast
  from ProcessReference_cases[of ?c 0 0 20 32 _ A_info] e g ok
  have 3: "\<exists>s' p. ProcessReference 20 ?c 0 0 = Inr s' \<and> Payloads s' 0 0 = Some p \<and> p \<noteq> 32 \<and>
            Headers s' 32 = (Headers ?c 32)\<lparr>Forwardee := Some p\<rparr> \<and>
            Headers s' p = \<lparr>Info = Some A_info, Forwardee = None\<rparr>" by blast
  from ProcessReference_cases[of ?p 0 0 20 32] p
  have 4: "\<exists>s'. ProcessReference 20 ?p 0 0 = Inr s' \<and> Payloads s' 0 0 = Some 32" by blast
  from 1 2 3 4 n f e p show ?thesis by blast
qed

text \<open>
  C7. Claim: right after \<^verbatim>\<open>Collect\<close>, \<^verbatim>\<open>Used()\<close> is the sum of \<^verbatim>\<open>Info->Size\<close> over the objects
  reachable from the roots and the objects pinned in the prior generation. \<^verbatim>\<open>Used()\<close> is
  \<^verbatim>\<open>AllocPtr - From\<close> in the new from-space, and a pinned object stays in the old one: with
  one object, reachable and pinned, the sum is 32 and \<^verbatim>\<open>Used()\<close> is 0.
\<close>

theorem Used_omits_pinned_objects:
  "reachable_and_pinned_bytes 20 (final (run 20 [new_A 0, OpPin 0] Heap_init)) = 32 \<and>
   outcome (run 20 [new_A 0, OpPin 0, OpCollect] Heap_init) = None \<and>
   Used (final (run 20 [new_A 0, OpPin 0, OpCollect] Heap_init)) = 0"
  by code_simp

text \<open>
  C7, as amended: right after a \<^verbatim>\<open>Collect\<close> of a \<open>collectable\<close> heap (see C1), \<^verbatim>\<open>Used()\<close> is
  the sum of \<^verbatim>\<open>Info->Size\<close> over the unpinned objects that were reachable from the root
  set at the start of the collection. The objects pinned in the prior generation stay in
  the other space and are not counted. \<^verbatim>\<open>Collect\<close> does return when, in addition, the
  from-space holds its objects back to back from its base and the fuel of the loops
  exceeds their number.
\<close>

theorem Used_is_size_of_reachable_unpinned_objects:
  "(collectable s objs \<and> Collect fuel s = Inr s' \<longrightarrow>
      Used s' = sum (size_at s) {a \<in> reach s. \<not> is_pinned s a}) \<and>
   (collectable s objs \<and> contiguous s objs infos \<and> length objs < fuel \<longrightarrow>
      (\<exists>s'. Collect fuel s = Inr s'))"
  (is "(?H1 \<longrightarrow> ?C1) \<and> (?H2 \<longrightarrow> ?C2)")
proof -
  have 1: "?H1 \<longrightarrow> ?C1"
  proof
    assume ?H1
    then have col: "collectable s objs" and run: "Collect fuel s = Inr s'" by simp_all
    from Collect_copies[OF col run] obtain L where
      L: "distinct L" "set L = {a \<in> reach s. \<not> is_pinned s a}"
      and fr: "From s' = To s"
      and ap: "AllocPtr s' = To s + sum_list (map (size_at s) L)"
      by blast
    have "Used s' = sum_list (map (size_at s) L)"
      by (simp add: Used_def diff64_def fr ap)
    also have "\<dots> = sum (size_at s) (set L)"
      using L(1) by (rule sum_list_distinct_conv_sum_set)
    finally show ?C1 unfolding L(2) .
  qed
  have 2: "?H2 \<longrightarrow> ?C2"
  proof
    assume ?H2
    then show ?C2 by (elim conjE) (rule Collect_returns)
  qed
  show ?thesis by (rule conjI[OF 1 2])
qed

theorem Used_is_size_of_reachable_unpinned_objects_witness:
  "collectable (final (run 20 like_main Heap_init)) [0, 32, 64, 96, 128, 160] \<and>
   contiguous (final (run 20 like_main Heap_init)) [0, 32, 64, 96, 128, 160]
     (replicate 6 A_info) \<and>
   reachable_and_pinned_bytes 20 (final (run 20 like_main Heap_init)) = 96 \<and>
   (\<exists>s'. Collect 20 (final (run 20 like_main Heap_init)) = Inr s' \<and>
      Used s' = sum (size_at (final (run 20 like_main Heap_init)))
                  {a \<in> reach (final (run 20 like_main Heap_init)).
                     \<not> is_pinned (final (run 20 like_main Heap_init)) a} \<and>
      Used s' = 64)"
proof -
  define s where "s = final (run 20 like_main Heap_init)"
  have 1: "collectable s [0, 32, 64, 96, 128, 160]" unfolding s_def by code_simp
  have 2: "contiguous s [0, 32, 64, 96, 128, 160] (replicate 6 A_info)"
    unfolding s_def by code_simp
  have 3: "reachable_and_pinned_bytes 20 s = 96" unfolding s_def by code_simp
  have 4: "case Collect 20 s of Inl e \<Rightarrow> False | Inr s' \<Rightarrow> Used s' = 64"
    unfolding s_def by code_simp
  have 5: "length [0::nat, 32, 64, 96, 128, 160] < 20" by simp
  note t = Used_is_size_of_reachable_unpinned_objects
  from t[THEN conjunct2, of s "[0, 32, 64, 96, 128, 160]" "replicate 6 A_info" 20] 1 2 5
  obtain s' where c: "Collect 20 s = Inr s'" by blast
  from t[THEN conjunct1, of s "[0, 32, 64, 96, 128, 160]" 20 s'] 1 c
  have 6: "Used s' = sum (size_at s) {a \<in> reach s. \<not> is_pinned s a}" by blast
  from 4 c have 7: "Used s' = 64" by simp
  show ?thesis unfolding s_def[symmetric]
    using 1 2 3 c 6 7 by blast
qed

end
